theory Spec2Isabelle
  imports
    Main
    "HOL-Library.AList"
    "HOL-Library.Char_ord"
    "HOL-Library.List_Lexorder"
    "HOL-Library.Product_Lexorder"
begin

section \<open>Strings\<close>

text \<open>
  A Python string is a sequence of code points. It is modelled as \<open>string\<close>, a \<open>char\<close>
  being a code point below 256: the development is about text of that range. Only the
  string operations that \<open>main.py\<close> calls are modelled: \<open>str.strip()\<close>,
  \<open>str.strip(chars)\<close>, \<open>str.split(sep)\<close> and \<open>int(str)\<close>.
\<close>

definition dquote :: char where
  "dquote = CHR 0x22"

text \<open>
  The code points below 256 for which \<open>str.isspace\<close> holds; \<open>str.strip()\<close> removes
  them.
\<close>

definition isspace :: "char \<Rightarrow> bool" where
  "isspace c = (c \<in> set [CHR '' '', CHR 0x09, CHR 0x0A, CHR 0x0B, CHR 0x0C, CHR 0x0D,
                          CHR 0x1C, CHR 0x1D, CHR 0x1E, CHR 0x1F, CHR 0x85, CHR 0xA0])"

text \<open>\<open>s.strip(chars)\<close>: every leading and every trailing character of the set is removed.\<close>

definition strip_chars :: "(char \<Rightarrow> bool) \<Rightarrow> string \<Rightarrow> string" where
  "strip_chars p s = rev (dropWhile p (rev (dropWhile p s)))"

definition strip :: "string \<Rightarrow> string" where
  "strip s = strip_chars isspace s"

text \<open>
  \<open>s.split(sep)\<close> for a non-empty separator: the occurrences of \<open>sep\<close> are found from the
  left and do not overlap; the result always has at least one piece. (Python raises
  \<open>ValueError\<close> for an empty separator; the source only splits on the literals
  \<open>'" "'\<close> and \<open>':'\<close>.)
\<close>

fun split_acc :: "string \<Rightarrow> string \<Rightarrow> string \<Rightarrow> string list" where
  "split_acc sep cur [] = [rev cur]"
| "split_acc sep cur (c # cs) =
     (if sep \<noteq> [] \<and> take (length sep) (c # cs) = sep
      then rev cur # split_acc sep [] (drop (length sep - 1) cs)
      else split_acc sep (c # cur) cs)"

definition split :: "string \<Rightarrow> string \<Rightarrow> string list" where
  "split s sep = split_acc sep [] s"

text \<open>
  \<open>int(s)\<close> in base 10, as CPython reads a string. The whitespace that it skips at both
  ends is not that of \<open>str.strip()\<close>: the separators \<open>0x1C\<close> to \<open>0x1F\<close> are not skipped
  (\<open>int('\\x1f5')\<close> raises), the spaces \<open>0x85\<close> and \<open>0xA0\<close> are. One sign is allowed
  and the digits may be grouped by single underscores. A literal of more than 4300 digits
  is refused (the default of \<open>sys.set_int_max_str_digits\<close>). \<open>None\<close> stands for
  \<open>ValueError\<close>.
\<close>

definition int_space :: "char \<Rightarrow> bool" where
  "int_space c = (c \<in> set [CHR '' '', CHR 0x09, CHR 0x0A, CHR 0x0B, CHR 0x0C, CHR 0x0D,
                            CHR 0x85, CHR 0xA0])"

text \<open>The decimal digits below 256 are \<open>0\<close> to \<open>9\<close>.\<close>

definition isdigit :: "char \<Rightarrow> bool" where
  "isdigit c = (CHR ''0'' \<le> c \<and> c \<le> CHR ''9'')"

definition digit_val :: "char \<Rightarrow> int" where
  "digit_val c = int (of_char c) - 48"

definition max_str_digits :: nat where
  "max_str_digits = 4300"

fun digits_acc :: "int \<Rightarrow> string \<Rightarrow> int option" where
  "digits_acc a [] = Some a"
| "digits_acc a (c # cs) =
     (if isdigit c then digits_acc (10 * a + digit_val c) cs
      else if c = CHR ''_'' then
        (case cs of [] \<Rightarrow> None | d # _ \<Rightarrow> if isdigit d then digits_acc a cs else None)
      else None)"

definition parse_digits :: "string \<Rightarrow> int option" where
  "parse_digits s =
     (case s of
        [] \<Rightarrow> None
      | c # _ \<Rightarrow>
          if isdigit c \<and> length (filter isdigit s) \<le> max_str_digits
          then digits_acc 0 s
          else None)"

definition py_int :: "string \<Rightarrow> int option" where
  "py_int s =
     (case strip_chars int_space s of
        [] \<Rightarrow> None
      | c # cs \<Rightarrow>
          if c = CHR ''-'' then map_option uminus (parse_digits cs)
          else if c = CHR ''+'' then parse_digits cs
          else parse_digits (c # cs))"

section \<open>The store\<close>

text \<open>
  The Redis database that \<open>self.redis\<close> is connected to, with the commands the client
  issues, as the Redis command reference and redis-py describe them. A key holds a hash
  (field to value) or a sorted set (member to score); both are association lists, in
  which \<open>AList.update\<close> overwrites the entry of a key that is present and appends one that
  is new. A command on a key that holds the other type is answered with the \<open>WRONGTYPE\<close>
  error, which redis-py raises as an exception.

  The client is taken to be connected (\<open>connect\<close> has returned \<open>True\<close>) and alone on
  the database.
\<close>

datatype error =
    WrongType | DataError | OutOfRange | NotAFloat | ValueError | IndexError | StopIteration
  | IOError

type_synonym hash = "(string \<times> string) list"
type_synonym zset = "(string \<times> int) list"

datatype rvalue = Hash hash | ZSet zset

type_synonym store = "(string \<times> rvalue) list"

text \<open>\<open>HSET key field value [field value ...]\<close>; redis-py refuses an empty mapping.\<close>

definition hset :: "store \<Rightarrow> string \<Rightarrow> (string \<times> string) list \<Rightarrow> error + store" where
  "hset s key mapping =
     (if mapping = [] then Inl DataError
      else case map_of s key of
        None \<Rightarrow> Inr (AList.update key (Hash (fold (\<lambda>(f, v). AList.update f v) mapping [])) s)
      | Some (Hash h) \<Rightarrow>
          Inr (AList.update key (Hash (fold (\<lambda>(f, v). AList.update f v) mapping h)) s)
      | Some (ZSet _) \<Rightarrow> Inl WrongType)"

definition hgetall :: "store \<Rightarrow> string \<Rightarrow> error + hash" where
  "hgetall s key =
     (case map_of s key of
        None \<Rightarrow> Inr []
      | Some (Hash h) \<Rightarrow> Inr h
      | Some (ZSet _) \<Rightarrow> Inl WrongType)"

definition hget :: "store \<Rightarrow> string \<Rightarrow> string \<Rightarrow> error + string option" where
  "hget s key field =
     (case map_of s key of
        None \<Rightarrow> Inr None
      | Some (Hash h) \<Rightarrow> Inr (map_of h field)
      | Some (ZSet _) \<Rightarrow> Inl WrongType)"

text \<open>
  A score is a double. The client sends the decimal digits of an integer, and Redis
  keeps the double nearest to it, the even one of two that are equally near: the integer
  itself up to \<open>2^53\<close>, a multiple of a power of two beyond. An integer that rounds to
  \<open>2^1024\<close> or more is no double, and the command is refused. The double of an integer is
  an integer, so the scores of the model are integers. \<open>bitlen\<close> is the number of
  binary digits of a positive integer.
\<close>

function bitlen :: "int \<Rightarrow> nat" where
  "bitlen n = (if n \<le> 0 then 0 else 1 + bitlen (n div 2))"
  by pat_completeness auto

termination
  by (relation "measure nat") auto

declare bitlen.simps [simp del]

definition to_double :: "int \<Rightarrow> int option" where
  "to_double n =
     (let a = \<bar>n\<bar>; e = bitlen a in
      if e \<le> 53 then Some n
      else
        let sh = e - 53;
            q = a div 2 ^ sh;
            r = a mod 2 ^ sh;
            half = 2 ^ (sh - 1);
            q' = (if half < r \<or> (r = half \<and> odd q) then q + 1 else q);
            d = q' * 2 ^ sh
        in if 2 ^ 1024 \<le> d then None else Some (if n < 0 then - d else d))"

text \<open>
  \<open>ZADD key score member\<close>. Redis reads the score before it looks at the key.
\<close>

definition zadd :: "store \<Rightarrow> string \<Rightarrow> string \<Rightarrow> int \<Rightarrow> error + store" where
  "zadd s key member score =
     (case to_double score of
        None \<Rightarrow> Inl NotAFloat
      | Some d \<Rightarrow>
          (case map_of s key of
             None \<Rightarrow> Inr (AList.update key (ZSet [(member, d)]) s)
           | Some (ZSet z) \<Rightarrow> Inr (AList.update key (ZSet (AList.update member d z)) s)
           | Some (Hash _) \<Rightarrow> Inl WrongType))"

text \<open>
  The index arithmetic of a rank range: a negative index counts from the end, the range
  is inclusive on both sides and is cut to the elements that exist.
\<close>

definition rank_slice :: "'a list \<Rightarrow> int \<Rightarrow> int \<Rightarrow> 'a list" where
  "rank_slice xs start stop =
     (let llen = int (length xs);
          start1 = (if start < 0 then llen + start else start);
          stop1 = (if stop < 0 then llen + stop else stop);
          start2 = (if start1 < 0 then 0 else start1)
      in if start2 > stop1 \<or> start2 \<ge> llen then []
         else let stop2 = (if stop1 \<ge> llen then llen - 1 else stop1)
              in take (nat (stop2 - start2 + 1)) (drop (nat start2) xs))"

text \<open>
  \<open>ZREVRANGE key start stop\<close>: the members from the highest score to the lowest, members
  of equal score in descending lexicographic order. The indices are 64-bit integers.
\<close>

definition zrev_entries :: "zset \<Rightarrow> (string \<times> int) list" where
  "zrev_entries z = rev (sort_key (\<lambda>(m, sc). (sc, m)) z)"

definition zrevrange :: "store \<Rightarrow> string \<Rightarrow> int \<Rightarrow> int \<Rightarrow> error + string list" where
  "zrevrange s key start stop =
     (if start < - (2 ^ 63) \<or> 2 ^ 63 \<le> start \<or> stop < - (2 ^ 63) \<or> 2 ^ 63 \<le> stop
      then Inl OutOfRange
      else case map_of s key of
        None \<Rightarrow> Inr []
      | Some (ZSet z) \<Rightarrow> Inr (map fst (rank_slice (zrev_entries z) start stop))
      | Some (Hash _) \<Rightarrow> Inl WrongType)"

text \<open>
  \<open>scan_iter("user:*")\<close>: the keys that start with \<open>user:\<close>, whatever they hold, each once,
  in the order of the store.
\<close>

definition scan_iter_user :: "store \<Rightarrow> string list" where
  "scan_iter_user s = filter (\<lambda>k. take 5 k = ''user:'') (map fst s)"

section \<open>The client\<close>

text \<open>
  The state of a connected \<open>RedisClient\<close>: the database behind \<open>self.redis\<close> and what
  \<open>self.logger\<close> has written. The loaders return the client they leave behind; the
  queries are read-only and return their value.
\<close>

datatype log_entry =
    Info
  | WarningLine string
  | WarningRow "string list"
  | ErrorLog error

record client =
  redis :: store
  logger :: "log_entry list"

subsection \<open>\<open>load_users\<close>\<close>

text \<open>The separator \<open>'" "'\<close> and \<open>f.strip('"')\<close>.\<close>

definition delim :: string where
  "delim = [dquote, CHR '' '', dquote]"

definition parse_fields :: "string \<Rightarrow> string list" where
  "parse_fields line = map (strip_chars (\<lambda>c. c = dquote)) (split (strip line) delim)"

text \<open>\<open>range(1, n - 1, 2)\<close> for the length \<open>n\<close> of the fields.\<close>

definition key_indices :: "nat \<Rightarrow> nat list" where
  "key_indices n = filter odd [1 ..< n - 1]"

text \<open>
  The dict comprehension \<open>{fields[i]: fields[i+1] for i in range(1, len(fields)-1, 2)}\<close>:
  \<open>kv_pairs\<close> is the sequence of pairs it generates, \<open>dict_of\<close> the dict they make, in
  which a key that comes again keeps its place and takes the later value.
\<close>

definition dict_of :: "(string \<times> string) list \<Rightarrow> (string \<times> string) list" where
  "dict_of ps = fold (\<lambda>(k, v). AList.update k v) ps []"

definition kv_pairs :: "string list \<Rightarrow> (string \<times> string) list" where
  "kv_pairs flds = map (\<lambda>i. (flds ! i, flds ! (i + 1))) (key_indices (length flds))"

definition user_data_of :: "string list \<Rightarrow> (string \<times> string) list" where
  "user_data_of flds = dict_of (kv_pairs flds)"

fun load_users_loop :: "client \<Rightarrow> string list \<Rightarrow> error option \<times> client" where
  "load_users_loop c [] = (None, c)"
| "load_users_loop c (line # rest) =
     (let flds = parse_fields line in
      if length flds < 3
      then load_users_loop (c\<lparr>logger := logger c @ [WarningLine line]\<rparr>) rest
      else
        (case hset (redis c) (flds ! 0) (user_data_of flds) of
           Inl e \<Rightarrow> (Some e, c)
         | Inr s' \<Rightarrow> load_users_loop (c\<lparr>redis := s'\<rparr>) rest))"

text \<open>
  The file is the list of its lines, or \<open>None\<close> when it cannot be opened. Every exception
  ends the call with \<open>False\<close>; what was written before stays written.
\<close>

definition load_users :: "client \<Rightarrow> string list option \<Rightarrow> bool \<times> client" where
  "load_users c file =
     (case file of
        None \<Rightarrow> (False, c\<lparr>logger := logger c @ [ErrorLog IOError]\<rparr>)
      | Some lines \<Rightarrow>
          (case load_users_loop c lines of
             (None, c') \<Rightarrow> (True, c'\<lparr>logger := logger c' @ [Info]\<rparr>)
           | (Some e, c') \<Rightarrow> (False, c'\<lparr>logger := logger c' @ [ErrorLog e]\<rparr>)))"

subsection \<open>\<open>get_user_data\<close>\<close>

definition get_user_data :: "client \<Rightarrow> string \<Rightarrow> hash option" where
  "get_user_data c user_id =
     (case hgetall (redis c) user_id of
        Inl e \<Rightarrow> None
      | Inr user_data \<Rightarrow> if user_data \<noteq> [] then Some user_data else None)"

subsection \<open>\<open>load_scores\<close>\<close>

text \<open>
  The file is the list of the rows that \<open>csv.reader\<close> yields, the header first, or \<open>None\<close>
  when it cannot be opened. \<open>next(reader)\<close> raises \<open>StopIteration\<close> on a file without rows.
\<close>

fun load_scores_loop :: "client \<Rightarrow> string list list \<Rightarrow> error option \<times> client" where
  "load_scores_loop c [] = (None, c)"
| "load_scores_loop c (row # rest) =
     (if length row < 3
      then load_scores_loop (c\<lparr>logger := logger c @ [WarningRow row]\<rparr>) rest
      else
        (case py_int (row ! 2) of
           None \<Rightarrow> (Some ValueError, c)
         | Some score \<Rightarrow>
             (case zadd (redis c) (row ! 0) (row ! 1) score of
                Inl e \<Rightarrow> (Some e, c)
              | Inr s' \<Rightarrow> load_scores_loop (c\<lparr>redis := s'\<rparr>) rest)))"

definition load_scores :: "client \<Rightarrow> string list list option \<Rightarrow> bool \<times> client" where
  "load_scores c file =
     (case file of
        None \<Rightarrow> (False, c\<lparr>logger := logger c @ [ErrorLog IOError]\<rparr>)
      | Some [] \<Rightarrow> (False, c\<lparr>logger := logger c @ [ErrorLog StopIteration]\<rparr>)
      | Some (header # rows) \<Rightarrow>
          (case load_scores_loop c rows of
             (None, c') \<Rightarrow> (True, c'\<lparr>logger := logger c' @ [Info]\<rparr>)
           | (Some e, c') \<Rightarrow> (False, c'\<lparr>logger := logger c' @ [ErrorLog e]\<rparr>)))"

subsection \<open>\<open>get_users_by_even_id\<close>\<close>

text \<open>\<open>int(key.split(':')[1])\<close>: the piece between the first colon and the next one.\<close>

definition key_number :: "string \<Rightarrow> error + int" where
  "key_number key =
     (case split key '':'' of
        _ # piece # _ \<Rightarrow> (case py_int piece of None \<Rightarrow> Inl ValueError | Some n \<Rightarrow> Inr n)
      | _ \<Rightarrow> Inl IndexError)"

fun even_id_loop ::
  "store \<Rightarrow> string list \<Rightarrow> string list \<Rightarrow> string option list \<Rightarrow>
     error + string list \<times> string option list" where
  "even_id_loop s [] keys last_names = Inr (keys, last_names)"
| "even_id_loop s (key # rest) keys last_names =
     (case key_number key of
        Inl e \<Rightarrow> Inl e
      | Inr n \<Rightarrow>
          if n mod 2 = 0 then
            (case hget s key ''last_name'' of
               Inl e \<Rightarrow> Inl e
             | Inr v \<Rightarrow> even_id_loop s rest (keys @ [key]) (last_names @ [v]))
          else even_id_loop s rest keys last_names)"

definition get_users_by_even_id :: "client \<Rightarrow> string list \<times> string option list" where
  "get_users_by_even_id c =
     (case even_id_loop (redis c) (scan_iter_user (redis c)) [] [] of
        Inl e \<Rightarrow> ([], [])
      | Inr r \<Rightarrow> r)"

subsection \<open>\<open>get_female_users_in_region\<close>\<close>

text \<open>
  Python's floating-point numbers are a parameter of the model: \<open>float_of_str\<close> is
  \<open>float(s)\<close> for a string (\<open>None\<close> is \<open>ValueError\<close>), \<open>float_zero\<close> is \<open>float(0)\<close> and
  \<open>float_le\<close> is \<open><=\<close> on floats. What is proved holds for every such triple.
\<close>

record 'f floats =
  float_of_str :: "string \<Rightarrow> 'f option"
  float_zero :: 'f
  float_le :: "'f \<Rightarrow> 'f \<Rightarrow> bool"

text \<open>\<open>float(user_data.get('latitude', 0))\<close>.\<close>

definition latitude_of :: "'f floats \<Rightarrow> hash \<Rightarrow> 'f option" where
  "latitude_of F user_data =
     (case map_of user_data ''latitude'' of
        None \<Rightarrow> Some (float_zero F)
      | Some t \<Rightarrow> float_of_str F t)"

text \<open>
  The condition of the \<open>if\<close>. \<open>and\<close> evaluates from the left and stops at the first false
  operand, so the latitude is only converted for a female user of a listed country.
  \<open>user_data.get('country')\<close> is \<open>None\<close> for a user without country, which no list of
  strings contains.
\<close>

definition region_test ::
  "'f floats \<Rightarrow> hash \<Rightarrow> string list \<Rightarrow> 'f \<Rightarrow> 'f \<Rightarrow> error + bool" where
  "region_test F user_data countries min_lat max_lat =
     (if map_of user_data ''gender'' = Some ''female'' \<and>
         (case map_of user_data ''country'' of
            None \<Rightarrow> False
          | Some cn \<Rightarrow> cn \<in> set countries)
      then
        (case latitude_of F user_data of
           None \<Rightarrow> Inl ValueError
         | Some lat \<Rightarrow> Inr (float_le F min_lat lat \<and> float_le F lat max_lat))
      else Inr False)"

fun region_loop ::
  "'f floats \<Rightarrow> store \<Rightarrow> string list \<Rightarrow> 'f \<Rightarrow> 'f \<Rightarrow> string list \<Rightarrow> hash list \<Rightarrow>
     error + hash list" where
  "region_loop F s countries min_lat max_lat [] matching_users = Inr matching_users"
| "region_loop F s countries min_lat max_lat (key # rest) matching_users =
     (case hgetall s key of
        Inl e \<Rightarrow> Inl e
      | Inr user_data \<Rightarrow>
          (case region_test F user_data countries min_lat max_lat of
             Inl e \<Rightarrow> Inl e
           | Inr b \<Rightarrow>
               region_loop F s countries min_lat max_lat rest
                 (if b then matching_users @ [user_data] else matching_users)))"

definition get_female_users_in_region ::
  "'f floats \<Rightarrow> client \<Rightarrow> string list \<Rightarrow> 'f \<Rightarrow> 'f \<Rightarrow> hash list" where
  "get_female_users_in_region F c countries min_lat max_lat =
     (case region_loop F (redis c) countries min_lat max_lat (scan_iter_user (redis c)) [] of
        Inl e \<Rightarrow> []
      | Inr matching_users \<Rightarrow> matching_users)"

subsection \<open>\<open>get_top_players\<close>\<close>

text \<open>The list comprehension \<open>[self.redis.hget(player, 'email') for player in top_players]\<close>.\<close>

fun emails_of :: "store \<Rightarrow> string list \<Rightarrow> error + string option list" where
  "emails_of s [] = Inr []"
| "emails_of s (player # rest) =
     (case hget s player ''email'' of
        Inl e \<Rightarrow> Inl e
      | Inr v \<Rightarrow> (case emails_of s rest of Inl e \<Rightarrow> Inl e | Inr vs \<Rightarrow> Inr (v # vs)))"

definition get_top_players :: "client \<Rightarrow> string \<Rightarrow> int \<Rightarrow> string option list" where
  "get_top_players c leaderboard limit =
     (case zrevrange (redis c) leaderboard 0 (limit - 1) of
        Inl e \<Rightarrow> []
      | Inr top_players \<Rightarrow>
          (case emails_of (redis c) top_players of Inl e \<Rightarrow> [] | Inr emails \<Rightarrow> emails))"

section \<open>Well-formed stores\<close>

text \<open>
  In Redis a key names one value, a hash has one value for a field and a sorted set one
  score for a member.
\<close>

definition wf_value :: "rvalue \<Rightarrow> bool" where
  "wf_value v = (case v of Hash h \<Rightarrow> distinct (map fst h) | ZSet z \<Rightarrow> distinct (map fst z))"

definition wf_store :: "store \<Rightarrow> bool" where
  "wf_store s = (distinct (map fst s) \<and> list_all wf_value (map snd s))"

section \<open>Observations of the store\<close>

text \<open>
  The text of a key between its first colon and the next one, or the end of the key:
  the numeric id of a key \<open>user:<n>\<close>.
\<close>

definition id_text :: "string \<Rightarrow> string" where
  "id_text key = takeWhile (\<lambda>x. x \<noteq> CHR '':'') (drop 5 key)"

text \<open>The hash stored under a key, empty when there is none.\<close>

definition stored_hash :: "store \<Rightarrow> string \<Rightarrow> hash" where
  "stored_hash s key = (case map_of s key of Some (Hash h) \<Rightarrow> h | _ \<Rightarrow> [])"

text \<open>
  The three conditions on a record, in the words of the specification: the gender is
  \<open>female\<close>, the country is in the list, and the latitude, 0 when the record has none,
  lies between the bounds.
\<close>

definition in_region :: "'f floats \<Rightarrow> string list \<Rightarrow> 'f \<Rightarrow> 'f \<Rightarrow> hash \<Rightarrow> bool" where
  "in_region F countries min_lat max_lat h =
     (map_of h ''gender'' = Some ''female'' \<and>
      (case map_of h ''country'' of None \<Rightarrow> False | Some cn \<Rightarrow> cn \<in> set countries) \<and>
      (case latitude_of F h of
         None \<Rightarrow> False
       | Some lat \<Rightarrow> float_le F min_lat lat \<and> float_le F lat max_lat))"

text \<open>
  The scan can be read through: no key \<open>user:*\<close> holds a sorted set, and \<open>float\<close> accepts
  the latitude of every female user of a listed country.
\<close>

definition readable :: "'f floats \<Rightarrow> store \<Rightarrow> string list \<Rightarrow> bool" where
  "readable F s countries =
     list_all
       (\<lambda>key. case hgetall s key of
                Inl e \<Rightarrow> False
              | Inr h \<Rightarrow>
                  \<not> (map_of h ''gender'' = Some ''female'' \<and>
                     (case map_of h ''country'' of None \<Rightarrow> False | Some cn \<Rightarrow> cn \<in> set countries) \<and>
                     latitude_of F h = None))
       (scan_iter_user s)"

text \<open>The entries of the sorted set of a key, and the email stored for a member.\<close>

definition zset_of :: "store \<Rightarrow> string \<Rightarrow> zset" where
  "zset_of s key = (case map_of s key of Some (ZSet z) \<Rightarrow> z | _ \<Rightarrow> [])"

definition stored_email :: "store \<Rightarrow> string \<Rightarrow> string option" where
  "stored_email s member =
     (case map_of s member of Some (Hash h) \<Rightarrow> map_of h ''email'' | _ \<Rightarrow> None)"

text \<open>
  The score of a member in the sorted set of a key, as \<open>ZSCORE\<close> answers it; the client
  does not call it, the statements about \<open>load_scores\<close> observe the store with it.
\<close>

definition zscore :: "store \<Rightarrow> string \<Rightarrow> string \<Rightarrow> int option" where
  "zscore s key member = (case map_of s key of Some (ZSet z) \<Rightarrow> map_of z member | _ \<Rightarrow> None)"

section \<open>Example inputs\<close>

text \<open>
  A line of the attribute file as the format has it: every token between double quotes,
  the tokens separated by one space, a newline at the end.
\<close>

definition attr_line :: "string list \<Rightarrow> string" where
  "attr_line ts =
     concat (map (\<lambda>t. dquote # t @ [dquote, CHR '' '']) (butlast ts))
       @ dquote # last ts @ [dquote, CHR 0x0A]"

text \<open>Floats restricted to integer literals, which \<open>float\<close> reads as \<open>int\<close> does.\<close>

definition int_floats :: "int floats" where
  "int_floats = \<lparr>float_of_str = py_int, float_zero = 0, float_le = (\<le>)\<rparr>"

definition empty_client :: client where
  "empty_client = \<lparr>redis = [], logger = []\<rparr>"

definition lee_line :: string where
  "lee_line = attr_line [''user:2'', ''last_name'', ''Lee'']"

definition ann_client :: client where
  "ann_client = \<lparr>redis = [(''user:1'', Hash [(''first_name'', ''Ann'')])], logger = []\<rparr>"

definition country_line :: string where
  "country_line = attr_line [''user:1'', ''country'', ''US'']"


definition stray_line :: string where
  "stray_line = attr_line [''user:3'', ''city'', ''Pune'', ''stray'']"

definition city_line :: string where
  "city_line = attr_line [''user:3'', ''city'', ''Pune'']"

definition score_header :: "string list" where
  "score_header = [''leaderboard'', ''user'', ''score'']"

definition score_row :: "string \<Rightarrow> string \<Rightarrow> string list" where
  "score_row member score = [''leaderboard:1'', member, score]"

definition ids_client :: client where
  "ids_client =
     \<lparr>redis = [(''user:1'', Hash [(''last_name'', ''Roy'')]),
               (''user:2'', Hash [(''last_name'', ''Lee'')]),
               (''leaderboard:1'', ZSet [(''user:2'', 90)]),
               (''user:4'', Hash [(''first_name'', ''Ann'')])],
      logger = []\<rparr>"

definition colon_client :: client where
  "colon_client = \<lparr>redis = [(''user:2:x'', Hash [(''last_name'', ''Lee'')])], logger = []\<rparr>"

definition nested_client :: client where
  "nested_client = \<lparr>redis = [(''user:4:5'', Hash [(''last_name'', ''Roy'')])], logger = []\<rparr>"

definition word_client :: client where
  "word_client =
     \<lparr>redis = [(''user:2'', Hash [(''last_name'', ''Lee'')]),
               (''user:abc'', Hash [(''last_name'', ''Roy'')])],
      logger = []\<rparr>"

definition person :: "string \<Rightarrow> string \<Rightarrow> string \<Rightarrow> hash" where
  "person gender country latitude =
     [(''gender'', gender), (''country'', country), (''latitude'', latitude)]"

definition region_client :: client where
  "region_client =
     \<lparr>redis = [(''user:1'', Hash (person ''female'' ''US'' ''10'')),
               (''user:2'', Hash (person ''male'' ''US'' ''10'')),
               (''user:3'', Hash (person ''female'' ''FR'' ''10'')),
               (''leaderboard:1'', ZSet [(''user:1'', 50)]),
               (''user:4'', Hash (person ''female'' ''US'' ''50'')),
               (''user:5'', Hash [(''gender'', ''female''), (''country'', ''US'')]),
               (''user:6'', Hash (person ''male'' ''US'' ''north''))],
      logger = []\<rparr>"

definition north_client :: client where
  "north_client =
     \<lparr>redis = [(''user:1'', Hash (person ''female'' ''US'' ''north'')),
               (''user:2'', Hash (person ''female'' ''US'' ''10''))],
      logger = []\<rparr>"

definition board_client :: client where
  "board_client =
     \<lparr>redis = [(''user:1'', Hash [(''email'', ''a@x.org'')]),
               (''user:2'', Hash [(''last_name'', ''Lee'')]),
               (''user:3'', Hash [(''email'', ''c@x.org'')]),
               (''leaderboard:1'', ZSet [(''user:1'', 50), (''user:2'', 90), (''user:3'', 70)])],
      logger = []\<rparr>"

section \<open>Association lists\<close>

lemma map_of_fold_update:
  "map_of (fold (\<lambda>(f, v). AList.update f v) m h) = map_of h ++ map_of (rev m)"
proof (induction m arbitrary: h)
  case Nil
  show ?case by simp
next
  case (Cons p m)
  obtain k v where p: "p = (k, v)" by (cases p)
  have "map_of (fold (\<lambda>(f, v). AList.update f v) (p # m) h)
        = map_of (AList.update k v h) ++ map_of (rev m)"
    using Cons.IH [of "AList.update k v h"] by (simp add: p)
  also have "\<dots> = map_of h ++ map_of (rev (p # m))"
    by (simp add: p update_conv' map_add_upd_left fun_eq_iff map_add_def split: option.splits)
  finally show ?case .
qed

lemma distinct_fold_update:
  "distinct (map fst h) \<Longrightarrow> distinct (map fst (fold (\<lambda>(f, v). AList.update f v) m h))"
  by (induction m arbitrary: h) (auto simp: distinct_update)

lemma update_fresh: "k \<notin> fst ` set h \<Longrightarrow> AList.update k v h = h @ [(k, v)]"
  by (induction h) auto

lemma fold_update_distinct:
  "distinct (map fst (h @ m)) \<Longrightarrow> fold (\<lambda>(f, v). AList.update f v) m h = h @ m"
proof (induction m arbitrary: h)
  case Nil
  show ?case by simp
next
  case (Cons p m)
  obtain k v where p: "p = (k, v)" by (cases p)
  from Cons.prems have fresh: "k \<notin> fst ` set h" by (auto simp: p)
  from Cons.prems have "distinct (map fst ((h @ [(k, v)]) @ m))" by (auto simp: p)
  from Cons.IH [OF this] show ?case by (simp add: p update_fresh [OF fresh])
qed

lemma update_not_Nil: "AList.update k v h \<noteq> []"
  by (cases h) auto

lemma fold_update_keeps_entries:
  "h \<noteq> [] \<Longrightarrow> fold (\<lambda>(f, v). AList.update f v) m h \<noteq> []"
proof (induction m arbitrary: h)
  case Nil
  then show ?case by simp
next
  case (Cons p m)
  obtain k v where p: "p = (k, v)" by (cases p)
  from Cons.IH [OF update_not_Nil [of k v h]] show ?case by (simp add: p)
qed

lemma fold_update_not_Nil:
  "m \<noteq> [] \<Longrightarrow> fold (\<lambda>(f, v). AList.update f v) m h \<noteq> []"
proof (cases m)
  case Nil
  moreover assume "m \<noteq> []"
  ultimately show ?thesis by simp
next
  case (Cons p m')
  obtain k v where p: "p = (k, v)" by (cases p)
  from fold_update_keeps_entries [OF update_not_Nil [of k v h], of m'] show ?thesis
    by (simp add: Cons p)
qed

lemma count_distinct_key:
  "distinct (map fst h) \<Longrightarrow> map_of h k = Some v \<Longrightarrow> filter (\<lambda>p. fst p = k) h = [(k, v)]"
proof (induction h)
  case Nil
  then show ?case by simp
next
  case (Cons p h)
  show ?case
  proof (cases "fst p = k")
    case True
    with Cons.prems have "p = (k, v)" by (cases p) auto
    moreover from Cons.prems True have "k \<notin> fst ` set h" by auto
    then have "filter (\<lambda>p. fst p = k) h = []"
      by (force simp: filter_empty_conv)
    ultimately show ?thesis by simp
  next
    case False
    with Cons show ?thesis by auto
  qed
qed

lemma map_of_rev_distinct: "distinct (map fst xs) \<Longrightarrow> map_of (rev xs) = map_of xs"
proof (induction xs)
  case Nil
  show ?case by simp
next
  case (Cons p xs)
  obtain k v where p: "p = (k, v)" by (cases p)
  from Cons.prems have "map_of xs k = None"
    by (simp add: p map_of_eq_None_iff)
  with Cons show ?case
    by (auto simp: p fun_eq_iff map_add_def split: option.splits)
qed

section \<open>The pairs of a line\<close>

lemma length_key_indices: "length (key_indices n) = (n - 1) div 2"
proof -
  have "length (filter odd [1 ..< m]) = m div 2" for m :: nat
    by (induction m) auto
  then show ?thesis by (simp add: key_indices_def)
qed

lemma key_indices_explicit: "key_indices n = map (\<lambda>j. 2 * j + 1) [0 ..< (n - 1) div 2]"
proof -
  have "filter odd [1 ..< m] = map (\<lambda>j. 2 * j + 1) [0 ..< m div 2]" for m :: nat
  proof (induction m)
    case 0
    show ?case by simp
  next
    case (Suc m)
    show ?case
    proof (cases "m = 0")
      case True
      then show ?thesis by simp
    next
      case False
      then have "[1 ..< Suc m] = [1 ..< m] @ [m]" by simp
      moreover have "odd m \<Longrightarrow> Suc m div 2 = Suc (m div 2) \<and> 2 * (m div 2) + 1 = m"
        by presburger
      moreover have "even m \<Longrightarrow> Suc m div 2 = m div 2"
        by presburger
      ultimately show ?thesis using Suc.IH by (cases "odd m") simp_all
    qed
  qed
  then show ?thesis by (simp add: key_indices_def)
qed

lemma key_indices_not_Nil: "3 \<le> n \<Longrightarrow> key_indices n \<noteq> []"
  using length_key_indices [of n] by (cases "key_indices n") auto

lemma key_indices_bound: "i \<in> set (key_indices n) \<Longrightarrow> odd i \<and> i + 1 < n"
  by (auto simp: key_indices_def)

lemma key_indices_even: "even n \<Longrightarrow> key_indices (n - 1) = key_indices n"
proof -
  assume e: "even n"
  have step: "filter odd [1 ..< Suc m] = filter odd [1 ..< m]" if "even m" for m :: nat
    using that by (cases m) auto
  show ?thesis
  proof (cases "n < 2")
    case True
    then show ?thesis by (simp add: key_indices_def)
  next
    case False
    then have "n - 1 = Suc (n - 2)" and "n - 1 - 1 = n - 2" by arith+
    moreover from e False have "even (n - 2)" by simp
    ultimately show ?thesis using step [of "n - 2"] by (simp only: key_indices_def)
  qed
qed

lemma key_indices_skip_last:
  assumes "even n" and "i \<in> set (key_indices n)"
  shows "i + 1 < n - 1"
proof -
  from assms(2) have o: "odd i" and b: "i + 1 < n" using key_indices_bound by blast+
  from o have "odd (Suc (Suc i))" by simp
  with assms(1) have "Suc (Suc i) \<noteq> n" by metis
  with b show ?thesis by arith
qed

lemma kv_pairs_butlast: "even (length flds) \<Longrightarrow> kv_pairs (butlast flds) = kv_pairs flds"
proof -
  assume e: "even (length flds)"
  have m: "map (\<lambda>i. (butlast flds ! i, butlast flds ! (i + 1))) (key_indices (length flds))
        = map (\<lambda>i. (flds ! i, flds ! (i + 1))) (key_indices (length flds))"
  proof (rule map_cong [OF refl])
    fix i assume "i \<in> set (key_indices (length flds))"
    from key_indices_skip_last [OF e this]
    show "(butlast flds ! i, butlast flds ! (i + 1)) = (flds ! i, flds ! (i + 1))"
      by (simp add: nth_butlast)
  qed
  have "kv_pairs (butlast flds)
        = map (\<lambda>i. (butlast flds ! i, butlast flds ! (i + 1))) (key_indices (length flds - 1))"
    by (simp only: kv_pairs_def length_butlast)
  also have "\<dots> = map (\<lambda>i. (butlast flds ! i, butlast flds ! (i + 1))) (key_indices (length flds))"
    by (simp only: key_indices_even [OF e])
  also note m
  finally show ?thesis by (simp only: kv_pairs_def)
qed

lemma kv_pairs_not_Nil: "3 \<le> length flds \<Longrightarrow> kv_pairs flds \<noteq> []"
  by (simp add: kv_pairs_def key_indices_not_Nil)

lemma dict_of_not_Nil: "ps \<noteq> [] \<Longrightarrow> dict_of ps \<noteq> []"
  by (simp add: dict_of_def fold_update_not_Nil)

lemma user_data_of_not_Nil: "3 \<le> length flds \<Longrightarrow> user_data_of flds \<noteq> []"
  by (simp add: user_data_of_def dict_of_not_Nil kv_pairs_not_Nil)

lemma distinct_dict_of: "distinct (map fst (dict_of ps))"
  by (simp add: dict_of_def distinct_fold_update)

lemma map_of_dict_of: "map_of (dict_of ps) = map_of (rev ps)"
  by (simp add: dict_of_def map_of_fold_update)

lemma dict_of_distinct: "distinct (map fst ps) \<Longrightarrow> dict_of ps = ps"
  using fold_update_distinct [of "[]" ps] by (simp add: dict_of_def)

section \<open>Loading users\<close>

lemma load_users_loop_append:
  "load_users_loop c (pre @ post) =
     (case load_users_loop c pre of
        (None, c') \<Rightarrow> load_users_loop c' post
      | (Some e, c') \<Rightarrow> (Some e, c'))"
  by (induction pre arbitrary: c) (simp_all add: Let_def split: sum.splits)

text \<open>What the logger holds has no influence on the outcome or on the store.\<close>

lemma load_users_loop_logger:
  "redis c = redis d \<Longrightarrow>
     fst (load_users_loop c ls) = fst (load_users_loop d ls) \<and>
     redis (snd (load_users_loop c ls)) = redis (snd (load_users_loop d ls))"
proof (induction ls arbitrary: c d)
  case Nil
  then show ?case by simp
next
  case (Cons line ls)
  show ?case
  proof (cases "length (parse_fields line) < 3")
    case True
    with Cons.IH [of "c\<lparr>logger := logger c @ [WarningLine line]\<rparr>"
                     "d\<lparr>logger := logger d @ [WarningLine line]\<rparr>"] Cons.prems
    show ?thesis by simp
  next
    case False
    show ?thesis
    proof (cases "hset (redis d) (parse_fields line ! 0) (user_data_of (parse_fields line))")
      case (Inl e)
      with False Cons.prems show ?thesis by simp
    next
      case (Inr s')
      with False Cons.prems Cons.IH [of "c\<lparr>redis := s'\<rparr>" "d\<lparr>redis := s'\<rparr>"]
      show ?thesis by simp
    qed
  qed
qed

lemma load_users_fst: "fst (load_users c (Some ls)) = (fst (load_users_loop c ls) = None)"
  by (simp add: load_users_def split: prod.splits option.splits)

lemma load_users_redis:
  "redis (snd (load_users c (Some ls))) = redis (snd (load_users_loop c ls))"
  by (simp add: load_users_def split: prod.splits option.splits)

text \<open>
  C7. A line with fewer than three tokens is skipped: the loop logs a warning for it and
  goes on with the next line on the same store, so no write is issued for it. The load
  is not aborted: with the line anywhere in the file, \<open>load_users\<close> returns what it returns
  for the file without the line, and leaves the same store.
\<close>

theorem load_users_skips_short_line:
  assumes short: "length (parse_fields line) < 3"
  shows "load_users_loop c (line # rest) =
           load_users_loop (c\<lparr>logger := logger c @ [WarningLine line]\<rparr>) rest
       \<and> fst (load_users c (Some (pre @ line # post))) = fst (load_users c (Some (pre @ post)))
       \<and> redis (snd (load_users c (Some (pre @ line # post))))
           = redis (snd (load_users c (Some (pre @ post))))"
proof -
  have step: "load_users_loop d (line # post) =
                load_users_loop (d\<lparr>logger := logger d @ [WarningLine line]\<rparr>) post" for d post
    using short by simp
  have same: "fst (load_users_loop d (line # post)) = fst (load_users_loop d post) \<and>
              redis (snd (load_users_loop d (line # post))) = redis (snd (load_users_loop d post))"
    for d
    using load_users_loop_logger [of "d\<lparr>logger := logger d @ [WarningLine line]\<rparr>" d post]
    by (simp only: step) simp
  obtain r c1 where pre: "load_users_loop c pre = (r, c1)" by (cases "load_users_loop c pre")
  have "fst (load_users_loop c (pre @ line # post)) = fst (load_users_loop c (pre @ post)) \<and>
        redis (snd (load_users_loop c (pre @ line # post)))
          = redis (snd (load_users_loop c (pre @ post)))"
    using same [of c1] by (cases r) (simp_all add: load_users_loop_append pre)
  with step [of c rest] show ?thesis
    by (simp only: load_users_fst load_users_redis)
qed

theorem load_users_skips_short_line_witness:
  "length (parse_fields ''junk'') < 3
   \<and> load_users empty_client (Some [lee_line, ''junk'', lee_line])
       = (True, \<lparr>redis = [(''user:2'', Hash [(''last_name'', ''Lee'')])],
                 logger = [WarningLine ''junk'', Info]\<rparr>)
   \<and> fst (load_users empty_client (Some ([lee_line] @ ''junk'' # [lee_line])))
       = fst (load_users empty_client (Some ([lee_line] @ [lee_line])))
   \<and> redis (snd (load_users empty_client (Some ([lee_line] @ ''junk'' # [lee_line]))))
       = redis (snd (load_users empty_client (Some ([lee_line] @ [lee_line]))))"
proof -
  have short: "length (parse_fields ''junk'') < 3"
    by code_simp
  have run: "load_users empty_client (Some [lee_line, ''junk'', lee_line])
       = (True, \<lparr>redis = [(''user:2'', Hash [(''last_name'', ''Lee'')])],
                 logger = [WarningLine ''junk'', Info]\<rparr>)"
    by code_simp
  from load_users_skips_short_line [OF short, of empty_client "[]" "[lee_line]" "[lee_line]"]
    short run
  show ?thesis by blast
qed

text \<open>What one line writes, and what the lines of other users leave alone.\<close>

lemma hset_stored:
  assumes "hgetall s key = Inr old" and "mapping \<noteq> []"
  shows "hset s key mapping =
           Inr (AList.update key (Hash (fold (\<lambda>(f, v). AList.update f v) mapping old)) s)"
  using assms by (auto simp: hset_def hgetall_def split: option.splits rvalue.splits)

lemma hset_other:
  assumes "hset s key mapping = Inr s'" and "key \<noteq> uid"
  shows "map_of s' uid = map_of s uid"
  using assms
  by (auto simp: hset_def update_conv' split: if_splits option.splits rvalue.splits)

lemma get_user_data_lookup:
  "map_of (redis c) uid = map_of (redis d) uid \<Longrightarrow> get_user_data c uid = get_user_data d uid"
  by (simp add: get_user_data_def hgetall_def)

lemma get_user_data_update:
  "h \<noteq> [] \<Longrightarrow> redis c = AList.update uid (Hash h) s \<Longrightarrow> get_user_data c uid = Some h"
  by (simp add: get_user_data_def hgetall_def update_conv')

lemma load_users_loop_other_users:
  assumes "\<forall>l \<in> set ls. 3 \<le> length (parse_fields l) \<longrightarrow> parse_fields l ! 0 \<noteq> uid"
  shows "map_of (redis (snd (load_users_loop c ls))) uid = map_of (redis c) uid"
  using assms
proof (induction ls arbitrary: c)
  case Nil
  show ?case by simp
next
  case (Cons l ls)
  show ?case
  proof (cases "length (parse_fields l) < 3")
    case True
    with Cons.IH [of "c\<lparr>logger := logger c @ [WarningLine l]\<rparr>"] Cons.prems
    show ?thesis by simp
  next
    case False
    with Cons.prems have other: "parse_fields l ! 0 \<noteq> uid" by simp
    show ?thesis
    proof (cases "hset (redis c) (parse_fields l ! 0) (user_data_of (parse_fields l))")
      case (Inl e)
      with False show ?thesis by simp
    next
      case (Inr s')
      from Cons.IH [of "c\<lparr>redis := s'\<rparr>"] Cons.prems hset_other [OF Inr other]
      have "map_of (redis (snd (load_users_loop (c\<lparr>redis := s'\<rparr>) ls))) uid
              = map_of (redis c) uid"
        by simp
      with False Inr show ?thesis by simp
    qed
  qed
qed

lemma load_users_loop_line:
  assumes "3 \<le> length (parse_fields line)"
    and "hgetall (redis c) (parse_fields line ! 0) = Inr old"
  shows "load_users_loop c (line # post) =
           load_users_loop
             (c\<lparr>redis := AList.update (parse_fields line ! 0)
                    (Hash (fold (\<lambda>(f, v). AList.update f v)
                       (user_data_of (parse_fields line)) old)) (redis c)\<rparr>) post"
proof -
  from assms(1) have "\<not> length (parse_fields line) < 3" by simp
  moreover note hset_stored [OF assms(2) user_data_of_not_Nil [OF assms(1)]]
  ultimately show ?thesis by (simp add: Let_def)
qed

text \<open>
  A valid line anywhere in the file: the lines before it are loaded without exception,
  its \<open>user_id\<close> is then not the key of a sorted set, and no later line is of the same
  user. Then the line is loaded without exception, and after the whole call the hash of
  the user is the one stored before the line, with the dict of the line set into it.
\<close>

lemma load_users_line_written:
  assumes valid: "3 \<le> length (parse_fields line)"
    and before: "fst (load_users c (Some pre))"
    and stored: "hgetall (redis (snd (load_users c (Some pre)))) (parse_fields line ! 0) = Inr old"
    and later: "\<forall>l \<in> set post. 3 \<le> length (parse_fields l) \<longrightarrow>
                  parse_fields l ! 0 \<noteq> parse_fields line ! 0"
  shows "fst (load_users c (Some (pre @ [line])))"
    and "logger (snd (load_users_loop c (pre @ [line]))) = logger (snd (load_users_loop c pre))"
    and "get_user_data (snd (load_users c (Some (pre @ line # post)))) (parse_fields line ! 0)
           = Some (fold (\<lambda>(f, v). AList.update f v) (user_data_of (parse_fields line)) old)"
proof -
  let ?uid = "parse_fields line ! 0"
  let ?h = "fold (\<lambda>(f, v). AList.update f v) (user_data_of (parse_fields line)) old"
  obtain c1 where pre: "load_users_loop c pre = (None, c1)"
    using before by (cases "load_users_loop c pre") (simp add: load_users_fst)
  from stored have old: "hgetall (redis c1) ?uid = Inr old"
    by (simp add: load_users_redis pre)
  let ?c2 = "c1\<lparr>redis := AList.update ?uid (Hash ?h) (redis c1)\<rparr>"
  have step: "load_users_loop c (pre @ line # rest) = load_users_loop ?c2 rest" for rest
    using load_users_loop_line [OF valid old, of rest]
    by (simp add: load_users_loop_append pre del: load_users_loop.simps)
  from step [of "[]"] show "fst (load_users c (Some (pre @ [line])))"
    by (simp add: load_users_fst)
  from step [of "[]"]
  show "logger (snd (load_users_loop c (pre @ [line]))) = logger (snd (load_users_loop c pre))"
    by (simp add: pre)
  have "map_of (redis (snd (load_users_loop ?c2 post))) ?uid = map_of (redis ?c2) ?uid"
    by (rule load_users_loop_other_users [OF later])
  then have "get_user_data (snd (load_users_loop ?c2 post)) ?uid = get_user_data ?c2 ?uid"
    by (rule get_user_data_lookup)
  moreover have "get_user_data ?c2 ?uid = Some ?h"
    using fold_update_not_Nil [OF user_data_of_not_Nil [OF valid], of old]
    by (simp add: get_user_data_update)
  moreover have "get_user_data (snd (load_users c (Some (pre @ line # post)))) ?uid
      = get_user_data (snd (load_users_loop c (pre @ line # post))) ?uid"
    by (rule get_user_data_lookup) (simp add: load_users_redis)
  ultimately show "get_user_data (snd (load_users c (Some (pre @ line # post)))) ?uid = Some ?h"
    by (simp add: step)
qed

lemma map_of_written:
  "map_of (fold (\<lambda>(f, v). AList.update f v) (user_data_of flds) old)
     = map_of old ++ map_of (rev (kv_pairs flds))"
proof -
  have "map_of (rev (dict_of (kv_pairs flds))) = map_of (rev (kv_pairs flds))"
    by (simp add: map_of_rev_distinct [OF distinct_dict_of] map_of_dict_of)
  then show ?thesis by (simp add: map_of_fold_update user_data_of_def)
qed

text \<open>
  C1, as the code has it. \<open>HSET\<close> sets the fields it is given and leaves the others of
  the hash alone. Take a valid line anywhere in the file, the lines before it loaded
  without exception, its \<open>user_id\<close> not the key of a sorted set, and no later line of the
  same user. Then \<open>load_users\<close> loads the line without exception, and \<open>get_user_data\<close>
  returns afterwards the attributes stored before the line, overridden by the pairs of
  the line (a later pair of the line wins over an earlier one with the same key). When
  nothing was stored for the \<open>user_id\<close>, it returns the dict of the line, which is the
  list of its pairs, half as many as there are tokens after the \<open>user_id\<close>, when their
  keys differ.
\<close>

theorem load_users_then_get_user_data:
  assumes valid: "3 \<le> length (parse_fields line)"
    and before: "fst (load_users c (Some pre))"
    and stored: "hgetall (redis (snd (load_users c (Some pre)))) (parse_fields line ! 0) = Inr old"
    and later: "\<forall>l \<in> set post. 3 \<le> length (parse_fields l) \<longrightarrow>
                  parse_fields l ! 0 \<noteq> parse_fields line ! 0"
  shows "fst (load_users c (Some (pre @ [line])))
       \<and> (\<exists>d. get_user_data (snd (load_users c (Some (pre @ line # post))))
                 (parse_fields line ! 0) = Some d
              \<and> map_of d = map_of old ++ map_of (rev (kv_pairs (parse_fields line)))
              \<and> (old = [] \<longrightarrow> d = user_data_of (parse_fields line))
              \<and> (old = [] \<and> distinct (map fst (kv_pairs (parse_fields line))) \<longrightarrow>
                    d = kv_pairs (parse_fields line)
                    \<and> length d = (length (parse_fields line) - 1) div 2))"
proof -
  let ?flds = "parse_fields line"
  let ?d = "fold (\<lambda>(f, v). AList.update f v) (user_data_of ?flds) old"
  have fresh: "fold (\<lambda>(f, v). AList.update f v) (user_data_of ?flds) [] = user_data_of ?flds"
    using fold_update_distinct [of "[]" "user_data_of ?flds"] distinct_dict_of [of "kv_pairs ?flds"]
    by (simp add: user_data_of_def)
  have len: "length (kv_pairs ?flds) = (length ?flds - 1) div 2"
    by (simp add: kv_pairs_def length_key_indices)
  have "fst (load_users c (Some (pre @ [line])))"
    by (rule load_users_line_written(1) [OF valid before stored later])
  moreover
  have "get_user_data (snd (load_users c (Some (pre @ line # post)))) (?flds ! 0) = Some ?d"
    by (rule load_users_line_written(3) [OF valid before stored later])
  moreover have "map_of ?d = map_of old ++ map_of (rev (kv_pairs ?flds))"
    by (rule map_of_written)
  moreover have "old = [] \<longrightarrow> ?d = user_data_of ?flds"
    using fresh by simp
  moreover have "old = [] \<and> distinct (map fst (kv_pairs ?flds)) \<longrightarrow>
                   ?d = kv_pairs ?flds \<and> length ?d = (length ?flds - 1) div 2"
  proof
    assume "old = [] \<and> distinct (map fst (kv_pairs ?flds))"
    then have "?d = user_data_of ?flds" and "user_data_of ?flds = kv_pairs ?flds"
      using fresh by (simp_all add: user_data_of_def dict_of_distinct)
    with len show "?d = kv_pairs ?flds \<and> length ?d = (length ?flds - 1) div 2"
      by simp
  qed
  ultimately show ?thesis by blast
qed


text \<open>
  C8. Take a valid line with an odd number of tokens after the \<open>user_id\<close>, anywhere in
  the file, under the same conditions. Its pairs are the tokens 1 and 2, 3 and 4, and so
  on; no pair reaches the last token, and they are the pairs of the line without it. The
  line is loaded without exception and without a warning, and the hash stored for the
  user after the call is the one stored before the line, overridden by those pairs. The
  whole load does what it does for the file in which the line lacks its last token.
\<close>

theorem load_users_drops_unpaired_token:
  assumes valid: "3 \<le> length (parse_fields line)"
    and unpaired: "even (length (parse_fields line))"
    and before: "fst (load_users c (Some pre))"
    and stored: "hgetall (redis (snd (load_users c (Some pre)))) (parse_fields line ! 0) = Inr old"
    and later: "\<forall>l \<in> set post. 3 \<le> length (parse_fields l) \<longrightarrow>
                  parse_fields l ! 0 \<noteq> parse_fields line ! 0"
  shows "kv_pairs (parse_fields line)
           = map (\<lambda>j. (parse_fields line ! (2 * j + 1), parse_fields line ! (2 * j + 2)))
               [0 ..< (length (parse_fields line) - 2) div 2]
       \<and> (\<forall>j < (length (parse_fields line) - 2) div 2.
             2 * j + 2 < length (parse_fields line) - 1)
       \<and> kv_pairs (parse_fields line) = kv_pairs (butlast (parse_fields line))
       \<and> fst (load_users c (Some (pre @ [line])))
       \<and> logger (snd (load_users_loop c (pre @ [line]))) = logger (snd (load_users_loop c pre))
       \<and> (\<exists>d. get_user_data (snd (load_users c (Some (pre @ line # post))))
                 (parse_fields line ! 0) = Some d
              \<and> map_of d = map_of old ++ map_of (rev (kv_pairs (butlast (parse_fields line)))))
       \<and> (parse_fields line' = butlast (parse_fields line) \<longrightarrow>
            load_users_loop c (pre @ line # post) = load_users_loop c (pre @ line' # post))"
proof -
  let ?flds = "parse_fields line"
  let ?n = "length ?flds"
  from unpaired obtain m where m: "?n = 2 * m"
    by (auto elim: evenE)
  then have half: "(?n - 1) div 2 = (?n - 2) div 2"
    by (cases m) simp_all
  have a: "kv_pairs ?flds
             = map (\<lambda>j. (?flds ! (2 * j + 1), ?flds ! (2 * j + 2))) [0 ..< (?n - 2) div 2]"
    using half by (simp add: kv_pairs_def key_indices_explicit comp_def)
  have b: "\<forall>j < (?n - 2) div 2. 2 * j + 2 < ?n - 1"
    using m by (cases m) auto
  have c: "kv_pairs ?flds = kv_pairs (butlast ?flds)"
    by (simp add: kv_pairs_butlast [OF unpaired])
  have d: "fst (load_users c (Some (pre @ [line])))"
    by (rule load_users_line_written(1) [OF valid before stored later])
  have e: "logger (snd (load_users_loop c (pre @ [line]))) = logger (snd (load_users_loop c pre))"
    by (rule load_users_line_written(2) [OF valid before stored later])
  have f: "\<exists>d. get_user_data (snd (load_users c (Some (pre @ line # post)))) (?flds ! 0) = Some d
             \<and> map_of d = map_of old ++ map_of (rev (kv_pairs (butlast ?flds)))"
    using load_users_line_written(3) [OF valid before stored later]
      map_of_written [of ?flds old] c
    by simp
  have g: "load_users_loop c (pre @ line # post) = load_users_loop c (pre @ line' # post)"
    if eq: "parse_fields line' = butlast ?flds"
  proof -
    from valid unpaired have four: "4 \<le> ?n"
      by (cases "?n = 3") auto
    then have "\<not> length (butlast ?flds) < 3" and "butlast ?flds ! 0 = ?flds ! 0"
      by (simp_all add: nth_butlast)
    moreover from valid have "\<not> ?n < 3" by simp
    ultimately have "load_users_loop d (line # post) = load_users_loop d (line' # post)" for d
      by (simp add: eq user_data_of_def c Let_def)
    then show ?thesis
      by (simp add: load_users_loop_append del: load_users_loop.simps
            split: prod.splits option.splits)
  qed
  from a b c d e f g show ?thesis by blast
qed

text \<open>
  The write is not a replacement: \<open>user:1\<close> has the attribute \<open>first_name\<close>, the line
  gives it a \<open>country\<close>, and \<open>get_user_data\<close> returns both.
\<close>

theorem load_users_overwrite_counterexample:
  "3 \<le> length (parse_fields country_line)
   \<and> odd (length (parse_fields country_line))
   \<and> parse_fields country_line ! 0 = ''user:1''
   \<and> kv_pairs (parse_fields country_line) = [(''country'', ''US'')]
   \<and> fst (load_users ann_client (Some [country_line]))
   \<and> get_user_data (snd (load_users ann_client (Some [country_line]))) ''user:1''
       = Some [(''first_name'', ''Ann''), (''country'', ''US'')]
   \<and> get_user_data (snd (load_users ann_client (Some [country_line]))) ''user:1''
       \<noteq> Some (kv_pairs (parse_fields country_line))"
  by code_simp

theorem load_users_then_get_user_data_witness:
  "3 \<le> length (parse_fields country_line)
   \<and> fst (load_users ann_client (Some [lee_line]))
   \<and> hgetall (redis (snd (load_users ann_client (Some [lee_line]))))
         (parse_fields country_line ! 0) = Inr [(''first_name'', ''Ann'')]
   \<and> fst (load_users ann_client (Some ([lee_line] @ [country_line])))
   \<and> get_user_data (snd (load_users ann_client (Some ([lee_line] @ country_line # [city_line]))))
         ''user:1''
       = Some [(''first_name'', ''Ann''), (''country'', ''US'')]"
proof -
  have valid: "3 \<le> length (parse_fields country_line)"
    by code_simp
  have before: "fst (load_users ann_client (Some [lee_line]))"
    by code_simp
  have stored: "hgetall (redis (snd (load_users ann_client (Some [lee_line]))))
                  (parse_fields country_line ! 0) = Inr [(''first_name'', ''Ann'')]"
    by code_simp
  have later: "\<forall>l \<in> set [city_line]. 3 \<le> length (parse_fields l) \<longrightarrow>
                 parse_fields l ! 0 \<noteq> parse_fields country_line ! 0"
    by code_simp
  have run: "get_user_data
               (snd (load_users ann_client (Some ([lee_line] @ country_line # [city_line]))))
               ''user:1''
             = Some [(''first_name'', ''Ann''), (''country'', ''US'')]"
    by code_simp
  from load_users_then_get_user_data [OF valid before stored later] valid before stored run
  show ?thesis by blast
qed


theorem load_users_drops_unpaired_token_witness:
  "3 \<le> length (parse_fields stray_line)
   \<and> even (length (parse_fields stray_line))
   \<and> fst (load_users ann_client (Some [country_line]))
   \<and> hgetall (redis (snd (load_users ann_client (Some [country_line]))))
         (parse_fields stray_line ! 0) = Inr []
   \<and> parse_fields city_line = butlast (parse_fields stray_line)
   \<and> kv_pairs (parse_fields stray_line) = [(''city'', ''Pune'')]
   \<and> fst (load_users ann_client (Some ([country_line] @ [stray_line])))
   \<and> load_users_loop ann_client ([country_line] @ stray_line # [lee_line])
       = load_users_loop ann_client ([country_line] @ city_line # [lee_line])
   \<and> get_user_data (snd (load_users ann_client (Some ([country_line] @ stray_line # [lee_line]))))
         ''user:3''
       = Some [(''city'', ''Pune'')]"
proof -
  have valid: "3 \<le> length (parse_fields stray_line)"
    by code_simp
  have unpaired: "even (length (parse_fields stray_line))"
    by code_simp
  have before: "fst (load_users ann_client (Some [country_line]))"
    by code_simp
  have stored: "hgetall (redis (snd (load_users ann_client (Some [country_line]))))
                  (parse_fields stray_line ! 0) = Inr []"
    by code_simp
  have later: "\<forall>l \<in> set [lee_line]. 3 \<le> length (parse_fields l) \<longrightarrow>
                 parse_fields l ! 0 \<noteq> parse_fields stray_line ! 0"
    by code_simp
  have same: "parse_fields city_line = butlast (parse_fields stray_line)"
    by code_simp
  have kv: "kv_pairs (parse_fields stray_line) = [(''city'', ''Pune'')]"
    by code_simp
  have run: "get_user_data
               (snd (load_users ann_client (Some ([country_line] @ stray_line # [lee_line]))))
               ''user:3''
             = Some [(''city'', ''Pune'')]"
    by code_simp
  from load_users_drops_unpaired_token [OF valid unpaired before stored later, of city_line]
    valid unpaired before stored same kv run
  show ?thesis by blast
qed

section \<open>Loading scores\<close>

lemma load_scores_loop_append:
  "load_scores_loop c (pre @ post) =
     (case load_scores_loop c pre of
        (None, c') \<Rightarrow> load_scores_loop c' post
      | (Some e, c') \<Rightarrow> (Some e, c'))"
  by (induction pre arbitrary: c) (simp_all split: sum.splits option.splits)

lemma load_scores_fst:
  "fst (load_scores c (Some (header # rows))) = (fst (load_scores_loop c rows) = None)"
  by (simp add: load_scores_def split: prod.splits option.splits)

lemma load_scores_redis:
  "redis (snd (load_scores c (Some (header # rows)))) = redis (snd (load_scores_loop c rows))"
  by (simp add: load_scores_def split: prod.splits option.splits)

text \<open>
  C3. A data row with at least three fields and a score that \<open>int\<close> rejects ends the load:
  the loop stops at the row with \<open>ValueError\<close> and leaves the client as it is, whatever
  follows; \<open>load_scores\<close> returns \<open>False\<close>; and the store is the one that loading the file
  cut before the row leaves, so that no later row is written and what the earlier rows
  wrote stays.
\<close>

theorem load_scores_fails_on_bad_score:
  assumes fields: "3 \<le> length row"
    and bad: "py_int (row ! 2) = None"
  shows "load_scores_loop c (row # post) = (Some ValueError, c)
       \<and> fst (load_scores c (Some (header # pre @ row # post))) = False
       \<and> redis (snd (load_scores c (Some (header # pre @ row # post))))
           = redis (snd (load_scores c (Some (header # pre))))"
proof -
  have stop: "load_scores_loop d (row # post) = (Some ValueError, d)" for d
    using fields bad by simp
  obtain r c1 where pre: "load_scores_loop c pre = (r, c1)"
    by (cases "load_scores_loop c pre")
  have "fst (load_scores_loop c (pre @ row # post)) \<noteq> None \<and>
        snd (load_scores_loop c (pre @ row # post)) = c1"
    by (cases r) (simp_all add: load_scores_loop_append pre stop del: load_scores_loop.simps)
  with stop [of c] pre show ?thesis
    by (simp add: load_scores_fst load_scores_redis)
qed

text \<open>Well-formed stores stay well-formed, and a write touches one member only.\<close>

lemma snd_update_subset: "set (map snd (AList.update k v s)) \<subseteq> insert v (set (map snd s))"
  by (induction s) auto

lemma wf_store_update:
  assumes "wf_store s" and "wf_value v"
  shows "wf_store (AList.update k v s)"
proof -
  have "wf_value x" if "x \<in> set (map snd (AList.update k v s))" for x
  proof -
    from that snd_update_subset [of k v s] have "x = v \<or> x \<in> set (map snd s)"
      by blast
    with assms show ?thesis
      by (auto simp: wf_store_def list_all_iff)
  qed
  then have "\<forall>x \<in> set (map snd (AList.update k v s)). wf_value x"
    by blast
  with assms(1) show ?thesis
    by (simp add: wf_store_def distinct_update list_all_iff)
qed

lemma wf_store_lookup: "wf_store s \<Longrightarrow> map_of s k = Some v \<Longrightarrow> wf_value v"
  by (auto simp: wf_store_def list_all_iff dest!: map_of_SomeD)

text \<open>The double of an integer of at most 53 bits is the integer.\<close>

lemma bitlen_le: "a < 2 ^ k \<Longrightarrow> bitlen a \<le> k"
proof (induction k arbitrary: a)
  case 0
  then show ?case by (simp add: bitlen.simps)
next
  case (Suc k)
  show ?case
  proof (cases "a \<le> 0")
    case True
    then show ?thesis by (simp add: bitlen.simps)
  next
    case False
    from Suc.prems have "a div 2 < 2 ^ k" by simp
    from Suc.IH [OF this] False show ?thesis
      by (subst bitlen.simps) simp
  qed
qed

lemma to_double_exact:
  assumes "\<bar>n\<bar> \<le> 2 ^ 53"
  shows "to_double n = Some n"
proof (cases "\<bar>n\<bar> < 2 ^ 53")
  case True
  from bitlen_le [OF this] show ?thesis
    unfolding to_double_def Let_def by simp
next
  case False
  with assms have "\<bar>n\<bar> = 2 ^ 53" by simp
  then have "n = 9007199254740992 \<or> n = - 9007199254740992" by simp arith
  moreover have "to_double 9007199254740992 = Some 9007199254740992"
    and "to_double (- 9007199254740992) = Some (- 9007199254740992)"
    by code_simp+
  ultimately show ?thesis by auto
qed

lemma zadd_Inr:
  assumes "zadd s key member score = Inr s'"
  obtains d where "to_double score = Some d"
    and "(map_of s key = None \<and> s' = AList.update key (ZSet [(member, d)]) s)
         \<or> (\<exists>z. map_of s key = Some (ZSet z)
                 \<and> s' = AList.update key (ZSet (AList.update member d z)) s)"
  using assms by (auto simp: zadd_def split: option.splits rvalue.splits)

lemma wf_store_zadd:
  assumes "wf_store s" and "zadd s key member score = Inr s'"
  shows "wf_store s'"
proof -
  from assms(2) obtain d where
    "(map_of s key = None \<and> s' = AList.update key (ZSet [(member, d)]) s)
     \<or> (\<exists>z. map_of s key = Some (ZSet z)
             \<and> s' = AList.update key (ZSet (AList.update member d z)) s)"
    by (rule zadd_Inr)
  then show ?thesis
  proof
    assume "map_of s key = None \<and> s' = AList.update key (ZSet [(member, d)]) s"
    with assms(1) show ?thesis
      by (auto simp: wf_value_def intro!: wf_store_update)
  next
    assume "\<exists>z. map_of s key = Some (ZSet z)
                \<and> s' = AList.update key (ZSet (AList.update member d z)) s"
    then obtain z where z: "map_of s key = Some (ZSet z)"
      and s': "s' = AList.update key (ZSet (AList.update member d z)) s" by blast
    from z assms(1) have "distinct (map fst z)"
      using wf_store_lookup [of s key "ZSet z"] by (simp add: wf_value_def)
    then have "wf_value (ZSet (AList.update member d z))"
      by (simp add: wf_value_def distinct_update)
    with assms(1) s' show ?thesis
      by (auto intro!: wf_store_update)
  qed
qed

lemma zscore_zadd_same:
  assumes "zadd s key member score = Inr s'"
  shows "zscore s' key member = to_double score \<and> to_double score \<noteq> None"
proof -
  from assms obtain d where "to_double score = Some d"
    and "(map_of s key = None \<and> s' = AList.update key (ZSet [(member, d)]) s)
         \<or> (\<exists>z. map_of s key = Some (ZSet z)
                 \<and> s' = AList.update key (ZSet (AList.update member d z)) s)"
    by (rule zadd_Inr)
  then show ?thesis
    by (auto simp: zscore_def update_conv')
qed

lemma zscore_zadd_other:
  assumes "zadd s key' member' score = Inr s'" and "(key', member') \<noteq> (key, member)"
  shows "zscore s' key member = zscore s key member"
proof -
  from assms(1) obtain d where
    how: "(map_of s key' = None \<and> s' = AList.update key' (ZSet [(member', d)]) s)
          \<or> (\<exists>z. map_of s key' = Some (ZSet z)
                  \<and> s' = AList.update key' (ZSet (AList.update member' d z)) s)"
    by (rule zadd_Inr)
  show ?thesis
  proof (cases "key' = key")
    case True
    with assms(2) have "member' \<noteq> member" by simp
    with how True show ?thesis
      by (auto simp: zscore_def update_conv')
  next
    case False
    with how have "map_of s' key = map_of s key"
      by (auto simp: update_conv')
    then show ?thesis by (simp add: zscore_def)
  qed
qed

lemma load_scores_loop_keeps_score:
  assumes "wf_store (redis c)" and "zscore (redis c) key member = Some n"
    and "\<forall>q \<in> set rows. 3 \<le> length q \<longrightarrow> (q ! 0, q ! 1) \<noteq> (key, member)"
  shows "wf_store (redis (snd (load_scores_loop c rows))) \<and>
         zscore (redis (snd (load_scores_loop c rows))) key member = Some n"
  using assms
proof (induction rows arbitrary: c)
  case Nil
  then show ?case by simp
next
  case (Cons row rows)
  show ?case
  proof (cases "length row < 3")
    case True
    with Cons.prems Cons.IH [of "c\<lparr>logger := logger c @ [WarningRow row]\<rparr>"]
    show ?thesis by simp
  next
    case False
    show ?thesis
    proof (cases "py_int (row ! 2)")
      case None
      with False Cons.prems show ?thesis by simp
    next
      case (Some score)
      show ?thesis
      proof (cases "zadd (redis c) (row ! 0) (row ! 1) score")
        case (Inl e)
        with False Some Cons.prems show ?thesis by simp
      next
        case (Inr s')
        from False Cons.prems(3) have other: "(row ! 0, row ! 1) \<noteq> (key, member)"
          by simp
        have "wf_store s'"
          by (rule wf_store_zadd [OF Cons.prems(1) Inr])
        moreover have "zscore s' key member = Some n"
          using zscore_zadd_other [OF Inr other] Cons.prems(2) by simp
        ultimately have "wf_store (redis (snd (load_scores_loop (c\<lparr>redis := s'\<rparr>) rows))) \<and>
            zscore (redis (snd (load_scores_loop (c\<lparr>redis := s'\<rparr>) rows))) key member = Some n"
          using Cons.IH [of "c\<lparr>redis := s'\<rparr>"] Cons.prems(3) by simp
        with False Some Inr show ?thesis by simp
      qed
    qed
  qed
qed

lemma load_scores_loop_wf:
  "wf_store (redis c) \<Longrightarrow> wf_store (redis (snd (load_scores_loop c rows)))"
proof (induction rows arbitrary: c)
  case Nil
  then show ?case by simp
next
  case (Cons row rows)
  show ?case
  proof (cases "length row < 3")
    case True
    with Cons.prems Cons.IH [of "c\<lparr>logger := logger c @ [WarningRow row]\<rparr>"]
    show ?thesis by simp
  next
    case False
    show ?thesis
    proof (cases "py_int (row ! 2)")
      case None
      with False Cons.prems show ?thesis by simp
    next
      case (Some score)
      show ?thesis
      proof (cases "zadd (redis c) (row ! 0) (row ! 1) score")
        case (Inl e)
        with False Some Cons.prems show ?thesis by simp
      next
        case (Inr s')
        from wf_store_zadd [OF Cons.prems Inr] Cons.IH [of "c\<lparr>redis := s'\<rparr>"]
        have "wf_store (redis (snd (load_scores_loop (c\<lparr>redis := s'\<rparr>) rows)))" by simp
        with False Some Inr show ?thesis by simp
      qed
    qed
  qed
qed

lemma load_scores_row_written:
  assumes "fst (load_scores_loop c [row]) = None" and "3 \<le> length row"
    and "py_int (row ! 2) = Some n"
  shows "zscore (redis (snd (load_scores_loop c [row]))) (row ! 0) (row ! 1) = to_double n
         \<and> to_double n \<noteq> None"
proof (cases "zadd (redis c) (row ! 0) (row ! 1) n")
  case (Inl e)
  with assms show ?thesis by simp
next
  case (Inr s')
  with assms zscore_zadd_same [OF Inr] show ?thesis by simp
qed

text \<open>
  C4, as the code has it. Start from any well-formed store, which the stores left by
  earlier loads are. If the rows up to \<open>row\<close> are processed and no later row of the file
  names the same leaderboard and member, then after \<open>load_scores\<close> the sorted set of the
  leaderboard has exactly one entry for the member, whatever scores earlier rows or
  earlier loads gave it. Its score is the score of \<open>row\<close> as Redis keeps it, the nearest
  double: the score of the row itself when that is at most \<open>2^53\<close> in absolute value. The
  store is well-formed again.
\<close>

theorem load_scores_last_write_wins:
  assumes wf: "wf_store (redis c)"
    and processed: "fst (load_scores c (Some (header # pre @ [row])))"
    and fields: "3 \<le> length row"
    and score: "py_int (row ! 2) = Some n"
    and later: "\<forall>q \<in> set post. 3 \<le> length q \<longrightarrow> (q ! 0, q ! 1) \<noteq> (row ! 0, row ! 1)"
  shows "\<exists>d. to_double n = Some d
           \<and> (\<bar>n\<bar> \<le> 2 ^ 53 \<longrightarrow> d = n)
           \<and> wf_store (redis (snd (load_scores c (Some (header # pre @ row # post)))))
           \<and> zscore (redis (snd (load_scores c (Some (header # pre @ row # post)))))
                 (row ! 0) (row ! 1) = Some d
           \<and> (\<exists>z. map_of (redis (snd (load_scores c (Some (header # pre @ row # post)))))
                      (row ! 0) = Some (ZSet z)
                  \<and> filter (\<lambda>p. fst p = row ! 1) z = [(row ! 1, d)])"
proof -
  obtain r c1 where pre: "load_scores_loop c pre = (r, c1)"
    by (cases "load_scores_loop c pre")
  from processed have ok: "fst (load_scores_loop c (pre @ [row])) = None"
    by (simp add: load_scores_fst)
  then have r: "r = None"
    by (cases r) (simp_all add: load_scores_loop_append pre del: load_scores_loop.simps)
  with ok have one: "fst (load_scores_loop c1 [row]) = None"
    by (simp add: load_scores_loop_append pre del: load_scores_loop.simps)
  obtain c2 where c2: "load_scores_loop c1 [row] = (None, c2)"
    using one by (cases "load_scores_loop c1 [row]") simp
  have "wf_store (redis c1)"
    using load_scores_loop_wf [OF wf, of pre] by (simp add: pre)
  then have wf2: "wf_store (redis c2)"
    using load_scores_loop_wf [of c1 "[row]"] unfolding c2 by simp
  from load_scores_row_written [OF one fields score]
  obtain d where d: "to_double n = Some d" and sc2: "zscore (redis c2) (row ! 0) (row ! 1) = Some d"
    unfolding c2 by auto
  have exact: "\<bar>n\<bar> \<le> 2 ^ 53 \<longrightarrow> d = n"
    using to_double_exact [of n] d by auto
  have rest: "load_scores_loop c (pre @ row # post) = load_scores_loop c2 post"
    using load_scores_loop_append [of c "pre @ [row]" post]
    by (simp add: load_scores_loop_append [of c pre "[row]"] pre r c2
          del: load_scores_loop.simps)
  let ?s = "redis (snd (load_scores c (Some (header # pre @ row # post))))"
  from load_scores_loop_keeps_score [OF wf2 sc2 later]
  have fin: "wf_store ?s \<and> zscore ?s (row ! 0) (row ! 1) = Some d"
    by (simp add: load_scores_redis rest)
  then obtain z where z: "map_of ?s (row ! 0) = Some (ZSet z)" and look: "map_of z (row ! 1) = Some d"
    by (auto simp: zscore_def split: option.splits rvalue.splits)
  from fin z have "distinct (map fst z)"
    using wf_store_lookup [of ?s "row ! 0" "ZSet z"] by (simp add: wf_value_def)
  then have "filter (\<lambda>p. fst p = row ! 1) z = [(row ! 1, d)]"
    using look by (rule count_distinct_key)
  with d exact fin z show ?thesis by blast
qed

theorem load_scores_fails_on_bad_score_witness:
  "3 \<le> length (score_row ''user:3'' ''x'')
   \<and> py_int (score_row ''user:3'' ''x'' ! 2) = None
   \<and> load_scores empty_client
        (Some [score_header, score_row ''user:1'' ''50'', score_row ''user:3'' ''x'',
               score_row ''user:4'' ''5''])
       = (False, \<lparr>redis = [(''leaderboard:1'', ZSet [(''user:1'', 50)])],
                  logger = [ErrorLog ValueError]\<rparr>)
   \<and> redis (snd (load_scores empty_client
        (Some (score_header # [score_row ''user:1'' ''50''] @ score_row ''user:3'' ''x''
                 # [score_row ''user:4'' ''5'']))))
       = redis (snd (load_scores empty_client
           (Some (score_header # [score_row ''user:1'' ''50'']))))"
proof -
  have fields: "3 \<le> length (score_row ''user:3'' ''x'')"
    by code_simp
  have bad: "py_int (score_row ''user:3'' ''x'' ! 2) = None"
    by code_simp
  have run: "load_scores empty_client
        (Some [score_header, score_row ''user:1'' ''50'', score_row ''user:3'' ''x'',
               score_row ''user:4'' ''5''])
       = (False, \<lparr>redis = [(''leaderboard:1'', ZSet [(''user:1'', 50)])],
                  logger = [ErrorLog ValueError]\<rparr>)"
    by code_simp
  from load_scores_fails_on_bad_score [OF fields bad, of empty_client "[score_row ''user:4'' ''5'']"
      score_header "[score_row ''user:1'' ''50'']"] fields bad run
  show ?thesis by blast
qed

theorem load_scores_last_write_wins_witness:
  "wf_store (redis empty_client)
   \<and> fst (load_scores empty_client
        (Some (score_header # [score_row ''user:2'' ''50''] @ [score_row ''user:2'' ''90''])))
   \<and> 3 \<le> length (score_row ''user:2'' ''90'')
   \<and> py_int (score_row ''user:2'' ''90'' ! 2) = Some 90
   \<and> zscore (redis (snd (load_scores empty_client
        (Some (score_header # [score_row ''user:2'' ''50''] @ score_row ''user:2'' ''90''
                 # [score_row ''user:7'' ''10''])))))
        (score_row ''user:2'' ''90'' ! 0) (score_row ''user:2'' ''90'' ! 1) = Some 90
   \<and> redis (snd (load_scores empty_client
        (Some [score_header, score_row ''user:2'' ''50'', score_row ''user:2'' ''90'',
               score_row ''user:7'' ''10''])))
       = [(''leaderboard:1'', ZSet [(''user:2'', 90), (''user:7'', 10)])]
   \<and> redis (snd (load_scores
        (snd (load_scores empty_client
           (Some [score_header, score_row ''user:2'' ''50'', score_row ''user:2'' ''90'',
                  score_row ''user:7'' ''10''])))
        (Some [score_header, score_row ''user:2'' ''70''])))
       = [(''leaderboard:1'', ZSet [(''user:2'', 70), (''user:7'', 10)])]"
proof -
  have wf: "wf_store (redis empty_client)"
    by code_simp
  have processed: "fst (load_scores empty_client
        (Some (score_header # [score_row ''user:2'' ''50''] @ [score_row ''user:2'' ''90''])))"
    by code_simp
  have fields: "3 \<le> length (score_row ''user:2'' ''90'')"
    by code_simp
  have score: "py_int (score_row ''user:2'' ''90'' ! 2) = Some 90"
    by code_simp
  have later: "\<forall>q \<in> set [score_row ''user:7'' ''10'']. 3 \<le> length q \<longrightarrow>
      (q ! 0, q ! 1) \<noteq> (score_row ''user:2'' ''90'' ! 0, score_row ''user:2'' ''90'' ! 1)"
    by (simp add: score_row_def)
  have run: "redis (snd (load_scores empty_client
        (Some [score_header, score_row ''user:2'' ''50'', score_row ''user:2'' ''90'',
               score_row ''user:7'' ''10''])))
       = [(''leaderboard:1'', ZSet [(''user:2'', 90), (''user:7'', 10)])]"
    by code_simp
  have again: "redis (snd (load_scores
        (snd (load_scores empty_client
           (Some [score_header, score_row ''user:2'' ''50'', score_row ''user:2'' ''90'',
                  score_row ''user:7'' ''10''])))
        (Some [score_header, score_row ''user:2'' ''70''])))
       = [(''leaderboard:1'', ZSet [(''user:2'', 70), (''user:7'', 10)])]"
    by code_simp
  have small: "\<bar>90 :: int\<bar> \<le> 2 ^ 53"
    by simp
  from load_scores_last_write_wins [OF wf processed fields score later] small
  have "zscore (redis (snd (load_scores empty_client
        (Some (score_header # [score_row ''user:2'' ''50''] @ score_row ''user:2'' ''90''
                 # [score_row ''user:7'' ''10''])))))
        (score_row ''user:2'' ''90'' ! 0) (score_row ''user:2'' ''90'' ! 1) = Some 90"
    by auto
  with wf processed fields score run again
  show ?thesis by (simp del: load_scores_loop.simps)
qed

text \<open>
  A score beyond \<open>2^53\<close> is not kept as it is: \<open>2^53 + 1\<close> is stored as \<open>2^53\<close>.
\<close>

theorem load_scores_rounding_counterexample:
  "py_int ''9007199254740993'' = Some 9007199254740993
   \<and> fst (load_scores empty_client
        (Some [score_header, score_row ''user:2'' ''9007199254740993'']))
   \<and> zscore (redis (snd (load_scores empty_client
        (Some [score_header, score_row ''user:2'' ''9007199254740993'']))))
        ''leaderboard:1'' ''user:2'' = Some 9007199254740992"
  by code_simp

section \<open>Users with an even id\<close>

text \<open>The pieces of a key \<open>user:...\<close>, and the characters of a string that \<open>int\<close> accepts.\<close>

lemma split_acc_not_Nil: "split_acc sep cur t \<noteq> []"
  by (induction sep cur t rule: split_acc.induct) auto

lemma hd_split_acc_colon:
  "hd (split_acc '':'' cur t) = rev cur @ takeWhile (\<lambda>x. x \<noteq> CHR '':'') t"
  by (induction t arbitrary: cur) auto

lemma split_user_key:
  assumes "take 5 key = ''user:''"
  shows "split key '':'' = ''user'' # split_acc '':'' [] (drop 5 key)"
proof -
  from assms have "key = ''user:'' @ drop 5 key"
    by (metis append_take_drop_id)
  then obtain t where "key = ''user:'' @ t" and "drop 5 key = t"
    by (metis append_eq_conv_conj)
  then show ?thesis by (simp add: split_def)
qed

lemma key_number_user_key:
  assumes "take 5 key = ''user:''"
  shows "key_number key =
           (case py_int (id_text key) of None \<Rightarrow> Inl ValueError | Some n \<Rightarrow> Inr n)"
proof -
  obtain piece rest where pr: "split_acc '':'' [] (drop 5 key) = piece # rest"
    using split_acc_not_Nil [of "'':''" "[]" "drop 5 key"]
    by (cases "split_acc '':'' [] (drop 5 key)") auto
  with hd_split_acc_colon [of "[]" "drop 5 key"] have "piece = id_text key"
    by (simp add: id_text_def)
  with pr show ?thesis
    by (simp add: key_number_def split_user_key [OF assms])
qed


lemma strip_chars_set: "x \<in> set s \<Longrightarrow> p x \<or> x \<in> set (strip_chars p s)"
proof -
  assume x: "x \<in> set s"
  have two: "y \<in> set t \<Longrightarrow> p y \<or> y \<in> set (dropWhile p t)" for y t
    by (metis Un_iff set_append set_takeWhileD takeWhile_dropWhile_id)
  from two [OF x] show ?thesis
  proof
    assume "p x" then show ?thesis ..
  next
    assume "x \<in> set (dropWhile p s)"
    then have "x \<in> set (rev (dropWhile p s))" by simp
    from two [OF this] show ?thesis by (auto simp: strip_chars_def)
  qed
qed

lemma digits_acc_chars:
  "digits_acc a s = Some m \<Longrightarrow> x \<in> set s \<Longrightarrow> isdigit x \<or> x = CHR ''_''"
  by (induction a s rule: digits_acc.induct) (auto split: if_splits list.splits)

lemma parse_digits_chars:
  "parse_digits s = Some m \<Longrightarrow> x \<in> set s \<Longrightarrow> isdigit x \<or> x = CHR ''_''"
  by (auto simp: parse_digits_def split: list.splits if_splits dest: digits_acc_chars)

lemma py_int_chars:
  assumes "py_int s = Some m" and "x \<in> set s"
  shows "int_space x \<or> isdigit x \<or> x \<in> {CHR ''_'', CHR ''+'', CHR ''-''}"
proof -
  let ?t = "strip_chars int_space s"
  from strip_chars_set [OF assms(2), of int_space]
  have "int_space x \<or> x \<in> set ?t" .
  then show ?thesis
  proof
    assume "int_space x" then show ?thesis ..
  next
    assume x: "x \<in> set ?t"
    from assms(1) obtain c cs where s: "?t = c # cs"
      by (cases ?t) (auto simp: py_int_def)
    show ?thesis
    proof (cases "c = CHR ''-'' \<or> c = CHR ''+''")
      case True
      with assms(1) s obtain m' where "parse_digits cs = Some m'"
        by (auto simp: py_int_def split: if_splits)
      from parse_digits_chars [OF this] x s True show ?thesis by auto
    next
      case False
      with assms(1) s have "parse_digits (c # cs) = Some m"
        by (auto simp: py_int_def)
      from parse_digits_chars [OF this] x s show ?thesis by auto
    qed
  qed
qed

lemma colon_plain: "\<not> int_space (CHR '':'')" "\<not> isdigit (CHR '':'')"
  by code_simp+

lemma py_int_no_colon: "py_int s = Some m \<Longrightarrow> CHR '':'' \<notin> set s"
  using py_int_chars [of s m "CHR '':''"] colon_plain by auto

lemma id_text_whole: "py_int (drop 5 key) = Some m \<Longrightarrow> id_text key = drop 5 key"
  using py_int_no_colon [of "drop 5 key" m] by (auto simp: id_text_def)


lemma scan_iter_user_prefix:
  "key \<in> set (scan_iter_user s) \<Longrightarrow> take 5 key = ''user:'' \<and> key \<in> fst ` set s"
  by (auto simp: scan_iter_user_def)

text \<open>What holds of the pairs collected so far holds of the pairs the loop returns.\<close>

lemma even_id_loop_pairs:
  assumes "even_id_loop s ks keys last_names = Inr (keys', last_names')"
    and "list_all2 (\<lambda>k v. k \<in> A \<and> (\<exists>n. key_number k = Inr n \<and> even n)
                          \<and> hget s k ''last_name'' = Inr v) keys last_names"
    and "set ks \<subseteq> A"
  shows "list_all2 (\<lambda>k v. k \<in> A \<and> (\<exists>n. key_number k = Inr n \<and> even n)
                          \<and> hget s k ''last_name'' = Inr v) keys' last_names'"
  using assms
proof (induction ks arbitrary: keys last_names)
  case Nil
  then show ?case by simp
next
  case (Cons key ks)
  from Cons.prems(1) obtain n where n: "key_number key = Inr n"
    by (cases "key_number key") auto
  show ?case
  proof (cases "n mod 2 = 0")
    case False
    with Cons.prems n have "even_id_loop s ks keys last_names = Inr (keys', last_names')"
      by simp
    from Cons.IH [OF this Cons.prems(2)] Cons.prems(3) show ?thesis by simp
  next
    case True
    with Cons.prems(1) n obtain v where v: "hget s key ''last_name'' = Inr v"
      by (cases "hget s key ''last_name''") auto
    with Cons.prems(1) n True
    have run: "even_id_loop s ks (keys @ [key]) (last_names @ [v]) = Inr (keys', last_names')"
      by simp
    from True have "even n" by presburger
    with n v Cons.prems(2,3)
    have "list_all2 (\<lambda>k v. k \<in> A \<and> (\<exists>n. key_number k = Inr n \<and> even n)
                          \<and> hget s k ''last_name'' = Inr v) (keys @ [key]) (last_names @ [v])"
      by (simp add: list_all2_appendI)
    from Cons.IH [OF run this] Cons.prems(3) show ?thesis by simp
  qed
qed

lemma even_id_loop_fails:
  assumes "key \<in> set ks" and "key_number key = Inl e"
  shows "\<exists>e'. even_id_loop s ks keys last_names = Inl e'"
  using assms(1)
proof (induction ks arbitrary: keys last_names)
  case Nil
  then show ?case by simp
next
  case (Cons k ks)
  show ?case
  proof (cases "k = key")
    case True
    with assms(2) show ?thesis by simp
  next
    case False
    with Cons.prems have "key \<in> set ks" by simp
    from Cons.IH [OF this] show ?thesis
      by (auto split: sum.splits)
  qed
qed

text \<open>
  C6, as the code has it. The two lists that \<open>get_users_by_even_id\<close> returns have the
  same length. Every returned key is a key of the store that starts with \<open>user:\<close>; the
  text between its first colon and the next one (the whole suffix when the key has a
  single colon) is read by \<open>int\<close> as an even number, so that a key whose whole suffix is an
  odd number is never returned. The entry of \<open>last_names\<close> at the place of a key is what
  \<open>hget\<close> answers for its \<open>last_name\<close>.
\<close>

theorem get_users_by_even_id_even:
  assumes "get_users_by_even_id c = (keys, last_names)"
  shows "length keys = length last_names
       \<and> (\<forall>i < length keys.
            take 5 (keys ! i) = ''user:''
            \<and> keys ! i \<in> fst ` set (redis c)
            \<and> (\<exists>n. py_int (id_text (keys ! i)) = Some n \<and> even n)
            \<and> (\<forall>m. py_int (drop 5 (keys ! i)) = Some m \<longrightarrow> even m)
            \<and> hget (redis c) (keys ! i) ''last_name'' = Inr (last_names ! i))"
proof -
  let ?P = "\<lambda>k v. k \<in> set (scan_iter_user (redis c)) \<and> (\<exists>n. key_number k = Inr n \<and> even n)
                    \<and> hget (redis c) k ''last_name'' = Inr v"
  have all: "list_all2 ?P keys last_names"
  proof (cases "even_id_loop (redis c) (scan_iter_user (redis c)) [] []")
    case (Inl e)
    with assms show ?thesis by (simp add: get_users_by_even_id_def)
  next
    case (Inr r)
    with assms have "even_id_loop (redis c) (scan_iter_user (redis c)) [] [] = Inr (keys, last_names)"
      by (simp add: get_users_by_even_id_def)
    from even_id_loop_pairs [OF this, of "set (scan_iter_user (redis c))"] show ?thesis by simp
  qed
  then have len: "length keys = length last_names"
    by (rule list_all2_lengthD)
  have "take 5 (keys ! i) = ''user:''
        \<and> keys ! i \<in> fst ` set (redis c)
        \<and> (\<exists>n. py_int (id_text (keys ! i)) = Some n \<and> even n)
        \<and> (\<forall>m. py_int (drop 5 (keys ! i)) = Some m \<longrightarrow> even m)
        \<and> hget (redis c) (keys ! i) ''last_name'' = Inr (last_names ! i)"
    if i: "i < length keys" for i
  proof -
    from list_all2_nthD [OF all i] have scan: "keys ! i \<in> set (scan_iter_user (redis c))"
      and num: "\<exists>n. key_number (keys ! i) = Inr n \<and> even n"
      and name: "hget (redis c) (keys ! i) ''last_name'' = Inr (last_names ! i)"
      by blast+
    from scan_iter_user_prefix [OF scan] have pre: "take 5 (keys ! i) = ''user:''"
      and mem: "keys ! i \<in> fst ` set (redis c)" by blast+
    from num obtain n where "key_number (keys ! i) = Inr n" and e: "even n" by blast
    then have n: "py_int (id_text (keys ! i)) = Some n"
      by (simp add: key_number_user_key [OF pre] split: option.splits)
    have "even m" if "py_int (drop 5 (keys ! i)) = Some m" for m
      using that n e id_text_whole [OF that] by simp
    with pre mem n e name show ?thesis by blast
  qed
  with len show ?thesis by blast
qed

text \<open>
  C9, as the code has it. \<open>key.split(':')[1]\<close> is the text between the first colon of
  the key and the next one, the whole suffix only when the key has a single colon. If
  \<open>int\<close> rejects that text for any key \<open>user:*\<close> of the store, the call returns
  \<open>([], [])\<close>, whatever the other keys are.
\<close>

theorem get_users_by_even_id_fails_closed:
  assumes "key \<in> set (scan_iter_user (redis c))"
    and "py_int (id_text key) = None"
  shows "get_users_by_even_id c = ([], [])"
proof -
  from scan_iter_user_prefix [OF assms(1)] have "take 5 key = ''user:''" by blast
  with assms(2) have "key_number key = Inl ValueError"
    by (simp add: key_number_user_key)
  from even_id_loop_fails [OF assms(1) this, of "redis c" "[]" "[]"]
  show ?thesis by (auto simp: get_users_by_even_id_def)
qed

theorem get_users_by_even_id_even_witness:
  "get_users_by_even_id ids_client = ([''user:2'', ''user:4''], [Some ''Lee'', None])
   \<and> length [''user:2'', ''user:4''] = length [Some ''Lee'', None]
   \<and> (\<exists>n. py_int (id_text ([''user:2'', ''user:4''] ! 1)) = Some n \<and> even n)
   \<and> hget (redis ids_client) ([''user:2'', ''user:4''] ! 1) ''last_name''
       = Inr ([Some ''Lee'', None] ! 1)"
proof -
  have run: "get_users_by_even_id ids_client = ([''user:2'', ''user:4''], [Some ''Lee'', None])"
    by code_simp
  have second: "1 < length [''user:2'', ''user:4'']"
    by simp
  from get_users_by_even_id_even [OF run, THEN conjunct2, rule_format, OF second] run
  show ?thesis by simp
qed

text \<open>
  A key with a second colon is judged by the piece before it: \<open>user:4:5\<close> is returned,
  although its suffix after the colon, \<open>4:5\<close>, is no even number.
\<close>

theorem get_users_by_even_id_piece_counterexample:
  "''user:4:5'' \<in> set (scan_iter_user (redis nested_client))
   \<and> py_int (drop 5 ''user:4:5'') = None
   \<and> get_users_by_even_id nested_client = ([''user:4:5''], [Some ''Roy''])"
  by code_simp

text \<open>
  The suffix \<open>2:x\<close> of the key \<open>user:2:x\<close> is no integer, and the call does not fail:
  \<open>int\<close> is given the \<open>2\<close>, and the key is returned.
\<close>

theorem get_users_by_even_id_suffix_counterexample:
  "''user:2:x'' \<in> set (scan_iter_user (redis colon_client))
   \<and> py_int (drop 5 ''user:2:x'') = None
   \<and> get_users_by_even_id colon_client = ([''user:2:x''], [Some ''Lee''])"
  by code_simp

theorem get_users_by_even_id_fails_closed_witness:
  "''user:abc'' \<in> set (scan_iter_user (redis word_client))
   \<and> py_int (id_text ''user:abc'') = None
   \<and> get_users_by_even_id word_client = ([], [])"
proof -
  have scanned: "''user:abc'' \<in> set (scan_iter_user (redis word_client))"
    by code_simp
  have rejected: "py_int (id_text ''user:abc'') = None"
    by code_simp
  from get_users_by_even_id_fails_closed [OF scanned rejected] scanned rejected
  show ?thesis by blast
qed

section \<open>Female users in a region\<close>

lemma hgetall_stored_hash: "hgetall s key = Inr h \<Longrightarrow> h = stored_hash s key"
  by (auto simp: hgetall_def stored_hash_def split: option.splits rvalue.splits)

lemma region_test_in_region:
  "region_test F h countries min_lat max_lat = Inr b \<Longrightarrow>
     b = in_region F countries min_lat max_lat h"
  by (auto simp: region_test_def in_region_def split: if_splits option.splits)

lemma region_test_fails:
  "(\<exists>e. region_test F h countries min_lat max_lat = Inl e) =
     (map_of h ''gender'' = Some ''female'' \<and>
      (case map_of h ''country'' of None \<Rightarrow> False | Some cn \<Rightarrow> cn \<in> set countries) \<and>
      latitude_of F h = None)"
  by (auto simp: region_test_def split: option.splits)

text \<open>A loop that comes to its end has gone through keys that can all be read.\<close>

lemma region_loop_done:
  assumes "region_loop F s countries min_lat max_lat keys acc = Inr res"
  shows "res = acc @ filter (in_region F countries min_lat max_lat) (map (stored_hash s) keys)
         \<and> list_all
             (\<lambda>key. case hgetall s key of
                      Inl e \<Rightarrow> False
                    | Inr h \<Rightarrow>
                        \<not> (map_of h ''gender'' = Some ''female'' \<and>
                           (case map_of h ''country'' of
                              None \<Rightarrow> False
                            | Some cn \<Rightarrow> cn \<in> set countries) \<and>
                           latitude_of F h = None)) keys"
  using assms
proof (induction keys arbitrary: acc)
  case Nil
  then show ?case by simp
next
  case (Cons key keys)
  from Cons.prems obtain h where h: "hgetall s key = Inr h"
    by (cases "hgetall s key") auto
  with Cons.prems obtain b where b: "region_test F h countries min_lat max_lat = Inr b"
    by (cases "region_test F h countries min_lat max_lat") auto
  from h b Cons.prems
  have run: "region_loop F s countries min_lat max_lat keys (if b then acc @ [h] else acc) = Inr res"
    by simp
  from b have fine: "\<not> (map_of h ''gender'' = Some ''female'' \<and>
      (case map_of h ''country'' of None \<Rightarrow> False | Some cn \<Rightarrow> cn \<in> set countries) \<and>
      latitude_of F h = None)"
    using region_test_fails [of F h countries min_lat max_lat] by simp
  from Cons.IH [OF run] h fine region_test_in_region [OF b] hgetall_stored_hash [OF h]
  show ?case by auto
qed

lemma region_loop_readable:
  assumes "list_all
             (\<lambda>key. case hgetall s key of
                      Inl e \<Rightarrow> False
                    | Inr h \<Rightarrow>
                        \<not> (map_of h ''gender'' = Some ''female'' \<and>
                           (case map_of h ''country'' of
                              None \<Rightarrow> False
                            | Some cn \<Rightarrow> cn \<in> set countries) \<and>
                           latitude_of F h = None)) keys"
  shows "\<exists>res. region_loop F s countries min_lat max_lat keys acc = Inr res"
  using assms
proof (induction keys arbitrary: acc)
  case Nil
  then show ?case by simp
next
  case (Cons key keys)
  from Cons.prems obtain h where h: "hgetall s key = Inr h"
    by (cases "hgetall s key") auto
  with Cons.prems have "\<not> (\<exists>e. region_test F h countries min_lat max_lat = Inl e)"
    by (simp add: region_test_fails)
  then obtain b where b: "region_test F h countries min_lat max_lat = Inr b"
    by (cases "region_test F h countries min_lat max_lat") auto
  from Cons.prems have "list_all
             (\<lambda>key. case hgetall s key of
                      Inl e \<Rightarrow> False
                    | Inr h \<Rightarrow>
                        \<not> (map_of h ''gender'' = Some ''female'' \<and>
                           (case map_of h ''country'' of
                              None \<Rightarrow> False
                            | Some cn \<Rightarrow> cn \<in> set countries) \<and>
                           latitude_of F h = None)) keys"
    by simp
  from Cons.IH [OF this, of "if b then acc @ [h] else acc"] h b show ?case by simp
qed

text \<open>
  C5, as the code has it. Every record that \<open>get_female_users_in_region\<close> returns is
  stored under a key \<open>user:*\<close> and meets the three conditions, so a record that fails one
  is never returned. When the scan can be read through, the result is exactly the
  records under the keys \<open>user:*\<close> that meet the three conditions, in the order of the
  scan. When it cannot (a key \<open>user:*\<close> holds a sorted set, or \<open>float\<close> rejects the
  latitude of a female user of a listed country), the result is empty.
\<close>

theorem get_female_users_in_region_filter:
  "(\<forall>h \<in> set (get_female_users_in_region F c countries min_lat max_lat).
       in_region F countries min_lat max_lat h
       \<and> h \<in> stored_hash (redis c) ` set (scan_iter_user (redis c)))
   \<and> (readable F (redis c) countries \<longrightarrow>
         get_female_users_in_region F c countries min_lat max_lat
           = filter (in_region F countries min_lat max_lat)
               (map (stored_hash (redis c)) (scan_iter_user (redis c))))
   \<and> (\<not> readable F (redis c) countries \<longrightarrow>
         get_female_users_in_region F c countries min_lat max_lat = [])"
proof (cases "region_loop F (redis c) countries min_lat max_lat (scan_iter_user (redis c)) []")
  case (Inl e)
  then have "\<not> readable F (redis c) countries"
    using region_loop_readable [where s = "redis c" and countries = countries and F = F
        and keys = "scan_iter_user (redis c)" and min_lat = min_lat and max_lat = max_lat
        and acc = "[]"]
    by (auto simp: readable_def)
  with Inl show ?thesis by (simp add: get_female_users_in_region_def)
next
  case (Inr res)
  from region_loop_done [OF Inr]
  have res: "res = filter (in_region F countries min_lat max_lat)
                     (map (stored_hash (redis c)) (scan_iter_user (redis c)))"
    and "readable F (redis c) countries"
    by (simp_all add: readable_def)
  with Inr show ?thesis by (auto simp: get_female_users_in_region_def)
qed

theorem get_female_users_in_region_filter_witness:
  "readable int_floats (redis region_client) [''US'']
   \<and> get_female_users_in_region int_floats region_client [''US''] 0 20
       = [person ''female'' ''US'' ''10'', [(''gender'', ''female''), (''country'', ''US'')]]
   \<and> get_female_users_in_region int_floats region_client [''US''] 0 20
       = filter (in_region int_floats [''US''] 0 20)
           (map (stored_hash (redis region_client)) (scan_iter_user (redis region_client)))"
proof -
  have ok: "readable int_floats (redis region_client) [''US'']"
    by code_simp
  have run: "get_female_users_in_region int_floats region_client [''US''] 0 20
       = [person ''female'' ''US'' ''10'', [(''gender'', ''female''), (''country'', ''US'')]]"
    by code_simp
  from get_female_users_in_region_filter [of int_floats region_client "[''US'']" 0 20] ok run
  show ?thesis by blast
qed

text \<open>
  One latitude that is no number empties the result: the record of \<open>user:2\<close> meets the
  three conditions and is not returned.
\<close>

theorem get_female_users_in_region_counterexample:
  "''user:2'' \<in> set (scan_iter_user (redis north_client))
   \<and> in_region int_floats [''US''] 0 20 (stored_hash (redis north_client) ''user:2'')
   \<and> get_female_users_in_region int_floats north_client [''US''] 0 20 = []"
  by code_simp

section \<open>Top players\<close>

lemma hget_stored_email: "hget s member ''email'' = Inr v \<Longrightarrow> v = stored_email s member"
  by (auto simp: hget_def stored_email_def split: option.splits rvalue.splits)

lemma emails_of_map: "emails_of s ms = Inr es \<Longrightarrow> es = map (stored_email s) ms"
proof (induction ms arbitrary: es)
  case Nil
  then show ?case by simp
next
  case (Cons m ms)
  from Cons.prems obtain v where v: "hget s m ''email'' = Inr v"
    by (cases "hget s m ''email''") auto
  with Cons.prems obtain vs where vs: "emails_of s ms = Inr vs"
    by (cases "emails_of s ms") auto
  with v Cons.prems have "es = v # vs" by simp
  with Cons.IH [OF vs] hget_stored_email [OF v] show ?case by simp
qed

lemma emails_of_answered:
  "\<forall>m \<in> set ms. \<exists>v. hget s m ''email'' = Inr v \<Longrightarrow> \<exists>es. emails_of s ms = Inr es"
  by (induction ms) auto

lemma rank_slice_top:
  assumes "1 \<le> limit"
  shows "rank_slice xs 0 (limit - 1) = take (nat limit) xs"
proof (cases "xs = []")
  case True
  then show ?thesis by (simp add: rank_slice_def)
next
  case False
  from assms have suc: "Suc (nat (limit - 1)) = nat limit" by arith
  show ?thesis
  proof (cases "int (length xs) \<le> limit - 1")
    case True
    then have "length xs \<le> nat limit" by arith
    with True False assms show ?thesis
      by (simp add: rank_slice_def Let_def)
  next
    case False
    with \<open>xs \<noteq> []\<close> assms suc show ?thesis
      by (simp add: rank_slice_def Let_def nat_add_distrib)
  qed
qed

lemma zrev_entries_set: "set (zrev_entries z) = set z"
  by (simp add: zrev_entries_def)

lemma zrev_entries_length: "length (zrev_entries z) = length z"
  by (simp add: zrev_entries_def)

lemma zrev_entries_descending: "sorted_wrt (\<lambda>a b. snd b \<le> snd a) (zrev_entries z)"
proof -
  have "sorted (map (\<lambda>(m, sc). (sc, m)) (sort_key (\<lambda>(m, sc). (sc, m)) z))"
    by (rule sorted_sort_key)
  then have "sorted_wrt (\<lambda>a b. (case a of (m, sc) \<Rightarrow> (sc, m)) \<le> (case b of (m, sc) \<Rightarrow> (sc, m)))
               (sort_key (\<lambda>(m, sc). (sc, m)) z)"
    by (simp add: sorted_map)
  then have "sorted_wrt (\<lambda>a b. snd a \<le> snd b) (sort_key (\<lambda>(m, sc). (sc, m)) z)"
    by (rule sorted_wrt_mono_rel [rotated]) (auto simp: less_eq_prod_def)
  then show ?thesis
    by (simp add: zrev_entries_def sorted_wrt_rev)
qed

lemma take_descending_top:
  assumes "sorted_wrt (\<lambda>a b. snd b \<le> snd a) xs"
    and "t \<in> set (take k xs)" and "e \<in> set xs" and "e \<notin> set (take k xs)"
  shows "snd e \<le> snd t"
proof -
  from assms(3,4) have "e \<in> set (drop k xs)"
    by (metis Un_iff append_take_drop_id set_append)
  moreover from assms(1) have "sorted_wrt (\<lambda>a b. snd b \<le> snd a) (take k xs @ drop k xs)"
    by simp
  ultimately show ?thesis using assms(2)
    by (auto simp: sorted_wrt_append simp del: append_take_drop_id)
qed

lemma zrevrange_top:
  assumes "1 \<le> limit" and "zrevrange s key 0 (limit - 1) = Inr ms"
  shows "ms = map fst (take (nat limit) (zrev_entries (zset_of s key)))"
  using assms
  by (auto simp: zrevrange_def zset_of_def zrev_entries_def rank_slice_top
           split: if_splits option.splits rvalue.splits)

lemma zrevrange_answered:
  assumes "1 \<le> limit" and "limit \<le> 2 ^ 63" and "\<forall>h. map_of s key \<noteq> Some (Hash h)"
  shows "\<exists>ms. zrevrange s key 0 (limit - 1) = Inr ms"
  using assms by (auto simp: zrevrange_def split: option.splits rvalue.splits)


text \<open>
  A limit of at least 1. \<open>get_top_players\<close> returns at most \<open>limit\<close> entries. They are the
  stored emails, \<open>None\<close> for a member without one, of entries of the sorted set of the
  leaderboard, taken in descending order of score, and no entry that is left out has a
  higher score than one that is taken. When the limit is an index that Redis accepts and
  no member is the key of a sorted set, there are as many entries as the limit and the
  size of the sorted set allow.
\<close>

theorem get_top_players_top:
  assumes "1 \<le> limit"
  shows "int (length (get_top_players c leaderboard limit)) \<le> limit
       \<and> (\<exists>top. get_top_players c leaderboard limit
                   = map (\<lambda>e. stored_email (redis c) (fst e)) top
                \<and> set top \<subseteq> set (zset_of (redis c) leaderboard)
                \<and> sorted_wrt (\<lambda>a b. snd b \<le> snd a) top
                \<and> (\<forall>t \<in> set top. \<forall>e \<in> set (zset_of (redis c) leaderboard).
                      e \<notin> set top \<longrightarrow> snd e \<le> snd t))
       \<and> (limit \<le> 2 ^ 63
            \<and> (\<forall>e \<in> set (zset_of (redis c) leaderboard).
                  \<exists>v. hget (redis c) (fst e) ''email'' = Inr v) \<longrightarrow>
          length (get_top_players c leaderboard limit)
            = min (nat limit) (length (zset_of (redis c) leaderboard)))"
proof -
  let ?s = "redis c"
  let ?xs = "zrev_entries (zset_of ?s leaderboard)"
  let ?top = "take (nat limit) ?xs"
  let ?res = "get_top_players c leaderboard limit"
  let ?good = "\<lambda>top. ?res = map (\<lambda>e. stored_email ?s (fst e)) top
                \<and> set top \<subseteq> set (zset_of ?s leaderboard)
                \<and> sorted_wrt (\<lambda>a b. snd b \<le> snd a) top
                \<and> (\<forall>t \<in> set top. \<forall>e \<in> set (zset_of ?s leaderboard).
                      e \<notin> set top \<longrightarrow> snd e \<le> snd t)"
  have top_sub: "set ?top \<subseteq> set (zset_of ?s leaderboard)"
    using set_take_subset [of "nat limit" ?xs] by (simp add: zrev_entries_set)
  have top_sorted: "sorted_wrt (\<lambda>a b. snd b \<le> snd a) ?top"
    using zrev_entries_descending [of "zset_of ?s leaderboard"] by (rule sorted_wrt_take)
  have top_best: "\<forall>t \<in> set ?top. \<forall>e \<in> set (zset_of ?s leaderboard).
                    e \<notin> set ?top \<longrightarrow> snd e \<le> snd t"
    using take_descending_top [OF zrev_entries_descending [of "zset_of ?s leaderboard"]]
    by (auto simp: zrev_entries_set)
  have top_len: "length ?top = min (nat limit) (length (zset_of ?s leaderboard))"
    by (simp add: zrev_entries_length min.commute)
  have empty_good: "?res = [] \<Longrightarrow> ?good []"
    by simp
  have full: "?res = map (\<lambda>e. stored_email ?s (fst e)) ?top"
    if ms: "zrevrange ?s leaderboard 0 (limit - 1) = Inr ms"
      and es: "emails_of ?s ms = Inr es" for ms es
  proof -
    from zrevrange_top [OF assms ms] emails_of_map [OF es]
    have "es = map (\<lambda>e. stored_email ?s (fst e)) ?top" by (simp add: comp_def)
    with ms es show ?thesis by (simp add: get_top_players_def)
  qed
  have cases: "?res = [] \<or> ?res = map (\<lambda>e. stored_email ?s (fst e)) ?top"
  proof (cases "zrevrange ?s leaderboard 0 (limit - 1)")
    case (Inl e)
    then show ?thesis by (simp add: get_top_players_def)
  next
    case (Inr ms)
    show ?thesis
    proof (cases "emails_of ?s ms")
      case (Inl e)
      with Inr show ?thesis by (simp add: get_top_players_def)
    next
      case es: (Inr es)
      from full [OF Inr es] show ?thesis ..
    qed
  qed
  have len: "int (length ?res) \<le> limit"
    using cases assms top_len by auto
  have ex: "\<exists>top. ?good top"
  proof -
    from cases show ?thesis
    proof
      assume "?res = []"
      from empty_good [OF this] show ?thesis ..
    next
      assume "?res = map (\<lambda>e. stored_email ?s (fst e)) ?top"
      with top_sub top_sorted top_best have "?good ?top" by blast
      then show ?thesis ..
    qed
  qed
  have all: "length ?res = min (nat limit) (length (zset_of ?s leaderboard))"
    if bound: "limit \<le> 2 ^ 63"
      and answered: "\<forall>e \<in> set (zset_of ?s leaderboard). \<exists>v. hget ?s (fst e) ''email'' = Inr v"
  proof (cases "\<exists>h. map_of ?s leaderboard = Some (Hash h)")
    case True
    then have "zset_of ?s leaderboard = []" and "?res = []"
      by (auto simp: zset_of_def get_top_players_def zrevrange_def)
    then show ?thesis by simp
  next
    case False
    then obtain ms where ms: "zrevrange ?s leaderboard 0 (limit - 1) = Inr ms"
      using zrevrange_answered [OF assms bound, of ?s leaderboard] by blast
    from zrevrange_top [OF assms ms] top_sub answered
    have "\<forall>m \<in> set ms. \<exists>v. hget ?s m ''email'' = Inr v"
      by auto
    from emails_of_answered [OF this] obtain es where es: "emails_of ?s ms = Inr es" ..
    from full [OF ms es] top_len show ?thesis by simp
  qed
  from len ex all show ?thesis by blast
qed

theorem get_top_players_top_example:
  "(1 :: int) \<le> 2
   \<and> get_top_players board_client ''leaderboard:1'' 2 = [None, Some ''c@x.org'']
   \<and> int (length (get_top_players board_client ''leaderboard:1'' 2)) \<le> 2"
proof -
  have positive: "(1 :: int) \<le> 2"
    by simp
  have run: "get_top_players board_client ''leaderboard:1'' 2 = [None, Some ''c@x.org'']"
    by code_simp
  from get_top_players_top [OF positive, of board_client "''leaderboard:1''"] positive run
  show ?thesis by blast
qed

text \<open>
  C2. The docstring makes \<open>limit\<close> the number of top players to retrieve: at most
  \<open>limit\<close> entries are to be returned. With the limit 0 the code asks for the ranks 0 to
  \<open>limit - 1 = -1\<close>, and a negative rank counts from the end: Redis answers with the whole
  sorted set, and the three emails of the leaderboard are returned where none is allowed.
\<close>

theorem get_top_players_limit_zero:
  "zrevrange (redis board_client) ''leaderboard:1'' 0 (0 - 1)
     = Inr [''user:2'', ''user:3'', ''user:1'']
   \<and> get_top_players board_client ''leaderboard:1'' 0
       = [None, Some ''c@x.org'', Some ''a@x.org'']
   \<and> \<not> int (length (get_top_players board_client ''leaderboard:1'' 0)) \<le> 0"
  by code_simp

section \<open>Stores stay well-formed\<close>

text \<open>
  The empty store is well-formed, and both loaders leave a well-formed store
  well-formed, whether they succeed or stop at an exception.
\<close>

lemma wf_store_empty: "wf_store []"
  by (simp add: wf_store_def)

lemma wf_store_hset:
  assumes "wf_store s" and "hset s key mapping = Inr s'"
  shows "wf_store s'"
proof (cases "map_of s key")
  case None
  have "wf_value (Hash (fold (\<lambda>(f, v). AList.update f v) mapping []))"
    by (simp add: wf_value_def distinct_fold_update)
  with None assms show ?thesis
    by (auto simp: hset_def split: if_splits intro!: wf_store_update)
next
  case (Some v)
  show ?thesis
  proof (cases v)
    case (ZSet z)
    with Some assms show ?thesis by (simp add: hset_def split: if_splits)
  next
    case (Hash h)
    with Some assms(1) have "distinct (map fst h)"
      using wf_store_lookup [of s key v] by (simp add: wf_value_def)
    then have "wf_value (Hash (fold (\<lambda>(f, v). AList.update f v) mapping h))"
      by (simp add: wf_value_def distinct_fold_update)
    with Some Hash assms show ?thesis
      by (auto simp: hset_def split: if_splits intro!: wf_store_update)
  qed
qed

lemma load_users_loop_wf:
  "wf_store (redis c) \<Longrightarrow> wf_store (redis (snd (load_users_loop c ls)))"
proof (induction ls arbitrary: c)
  case Nil
  then show ?case by simp
next
  case (Cons line ls)
  show ?case
  proof (cases "length (parse_fields line) < 3")
    case True
    with Cons.prems Cons.IH [of "c\<lparr>logger := logger c @ [WarningLine line]\<rparr>"]
    show ?thesis by simp
  next
    case False
    show ?thesis
    proof (cases "hset (redis c) (parse_fields line ! 0) (user_data_of (parse_fields line))")
      case (Inl e)
      with False Cons.prems show ?thesis by simp
    next
      case (Inr s')
      from wf_store_hset [OF Cons.prems Inr] Cons.IH [of "c\<lparr>redis := s'\<rparr>"]
      have "wf_store (redis (snd (load_users_loop (c\<lparr>redis := s'\<rparr>) ls)))" by simp
      with False Inr show ?thesis by simp
    qed
  qed
qed

lemma load_users_wf: "wf_store (redis c) \<Longrightarrow> wf_store (redis (snd (load_users c src)))"
proof (cases src)
  case None
  assume "wf_store (redis c)"
  with None show ?thesis by (simp add: load_users_def)
next
  case (Some ls)
  assume "wf_store (redis c)"
  from load_users_loop_wf [OF this, of ls] Some show ?thesis
    by (simp add: load_users_redis)
qed

lemma load_scores_wf: "wf_store (redis c) \<Longrightarrow> wf_store (redis (snd (load_scores c src)))"
proof (cases src)
  case None
  assume "wf_store (redis c)"
  with None show ?thesis by (simp add: load_scores_def)
next
  case (Some rows)
  assume wf: "wf_store (redis c)"
  show ?thesis
  proof (cases rows)
    case Nil
    with Some wf show ?thesis by (simp add: load_scores_def)
  next
    case (Cons header rest)
    with Some load_scores_loop_wf [OF wf, of rest] show ?thesis
      by (simp add: load_scores_redis)
  qed
qed

end
